theory Spec2Isabelle
  imports Main "HOL-Library.Product_Lexorder"
begin

section \<open>Day 8: junction boxes, union-find and the two connection queries\<close>

text \<open>
  The development embeds \<^verbatim>\<open>src/day08/day08.py\<close>: the class \<^verbatim>\<open>DisjointSet\<close>
  (\<^verbatim>\<open>__init__\<close>, \<^verbatim>\<open>find\<close>, \<^verbatim>\<open>union\<close>), \<^verbatim>\<open>parse_coordinates\<close>,
  \<^verbatim>\<open>euclidean_distance\<close>, \<^verbatim>\<open>part1\<close> and \<^verbatim>\<open>part2\<close>.

  Conventions of the embedding.
  \<^item> An exception of the source is a value: a computation that always returns has type
    \<open>error + 'a\<close> (\<open>Inl\<close> the exception), one that calls \<^verbatim>\<open>find\<close> returns
    \<open>(error + 'a) option\<close>, where \<open>None\<close> stands for a recursion that never returns
    (on a cyclic parent list; CPython stops it with RecursionError at its recursion limit,
    an interpreter setting that is not part of the embedding).
  \<^item> A mutated object is passed in and returned: every method takes the
    \<open>disjoint_set\<close> and returns the new one with its result.
  \<^item> Indices are natural numbers: the drivers only pass values of \<^verbatim>\<open>range(n)\<close>,
    and Python's negative indices are outside the embedding. An index that is out of range
    raises IndexError, as the list access does.
  \<^item> Ranks and sizes are natural numbers: they start at 0 and 1 and are only added to.
\<close>

subsection \<open>The disjoint-set class\<close>
datatype error = IndexError | ValueError | OverflowError

text \<open>
  The three lists of a \<^verbatim>\<open>DisjointSet\<close> object. The field \<^verbatim>\<open>size\<close> is
  \<open>size_ds\<close> here.
\<close>
record disjoint_set =
  parent :: "nat list"
  rank :: "nat list"
  size_ds :: "nat list"

text \<open>
  \<^verbatim>\<open>__init__\<close>: \<^verbatim>\<open>parent = list(range(n))\<close>, \<^verbatim>\<open>rank = [0] * n\<close>,
  \<^verbatim>\<open>size = [1] * n\<close>.
\<close>
definition DisjointSet :: "nat \<Rightarrow> disjoint_set" where
  "DisjointSet n = \<lparr>parent = [0..<n], rank = replicate n 0, size_ds = replicate n 1\<rparr>"

text \<open>
  \<^verbatim>\<open>find\<close> (lines 29-41), recursive with path compression:
  \<^verbatim>\<open>if self.parent[x] != x: self.parent[x] = self.find(self.parent[x])\<close> and then
  \<^verbatim>\<open>return self.parent[x]\<close>. The recursion follows parent pointers and need not end, so
  the function is partial; the assignment happens in the state the recursive call returns.
\<close>
partial_function (option) find_ds ::
  "disjoint_set \<Rightarrow> nat \<Rightarrow> (error + nat \<times> disjoint_set) option" where
  "find_ds ds x =
     (if length (parent ds) \<le> x then Some (Inl IndexError)
      else if parent ds ! x \<noteq> x then
        Option.bind (find_ds ds (parent ds ! x))
          (\<lambda>res. case res of
              Inl e \<Rightarrow> Some (Inl e)
            | Inr (r, ds') \<Rightarrow>
                if length (parent ds') \<le> x then Some (Inl IndexError)
                else let ds'' = ds'\<lparr>parent := (parent ds')[x := r]\<rparr>
                     in Some (Inr (parent ds'' ! x, ds'')))
      else Some (Inr (parent ds ! x, ds)))"

declare find_ds.simps [code]

text \<open>
  \<^verbatim>\<open>union\<close> (lines 43-70): two calls of \<^verbatim>\<open>find\<close>, each on the state the
  previous one left; \<^verbatim>\<open>False\<close> when the roots agree; otherwise the roots are swapped
  when \<^verbatim>\<open>rank[root_x] < rank[root_y]\<close>, \<^verbatim>\<open>root_y\<close> is attached under
  \<^verbatim>\<open>root_x\<close>, its size is added, and the rank of \<^verbatim>\<open>root_x\<close> grows by one when
  the two ranks are equal.
\<close>
definition union_ds ::
  "disjoint_set \<Rightarrow> nat \<Rightarrow> nat \<Rightarrow> (error + bool \<times> disjoint_set) option" where
  "union_ds ds x y =
     (case find_ds ds x of
        None \<Rightarrow> None
      | Some (Inl e) \<Rightarrow> Some (Inl e)
      | Some (Inr (root_x, ds1)) \<Rightarrow>
     (case find_ds ds1 y of
        None \<Rightarrow> None
      | Some (Inl e) \<Rightarrow> Some (Inl e)
      | Some (Inr (root_y, ds2)) \<Rightarrow>
          if root_x = root_y then Some (Inr (False, ds2))
          else if length (rank ds2) \<le> root_x \<or> length (rank ds2) \<le> root_y
          then Some (Inl IndexError)
          else
            let (root_x, root_y) =
                  (if rank ds2 ! root_x < rank ds2 ! root_y
                   then (root_y, root_x) else (root_x, root_y))
            in if length (parent ds2) \<le> root_y then Some (Inl IndexError)
            else
              let ds3 = ds2\<lparr>parent := (parent ds2)[root_y := root_x]\<rparr>
              in if length (size_ds ds3) \<le> root_x \<or> length (size_ds ds3) \<le> root_y
              then Some (Inl IndexError)
              else
                let ds4 = ds3\<lparr>size_ds := (size_ds ds3)
                            [root_x := size_ds ds3 ! root_x + size_ds ds3 ! root_y]\<rparr>;
                    ds5 = (if rank ds4 ! root_x = rank ds4 ! root_y
                           then ds4\<lparr>rank := (rank ds4)[root_x := rank ds4 ! root_x + 1]\<rparr>
                           else ds4)
                in Some (Inr (True, ds5))))"

subsection \<open>Sequences of calls\<close>

text \<open>
  A state of the class is reached by a sequence of method calls on a fresh object.
  \<open>run\<close> performs such a sequence, stops at the first exception as an uncaught
  exception would, and returns the value of every call with the final state.
  \<open>op_ok n\<close> says that a call only names indices below \<open>n\<close>.
\<close>
datatype op = Find nat | Union nat nat

datatype ret = Root nat | Merged bool

fun run :: "disjoint_set \<Rightarrow> op list \<Rightarrow> (error + ret list \<times> disjoint_set) option" where
  "run ds [] = Some (Inr ([], ds))"
| "run ds (Find x # ops) =
     (case find_ds ds x of
        None \<Rightarrow> None
      | Some (Inl e) \<Rightarrow> Some (Inl e)
      | Some (Inr (r, ds')) \<Rightarrow>
          (case run ds' ops of
             None \<Rightarrow> None
           | Some (Inl e) \<Rightarrow> Some (Inl e)
           | Some (Inr (rs, ds'')) \<Rightarrow> Some (Inr (Root r # rs, ds''))))"
| "run ds (Union x y # ops) =
     (case union_ds ds x y of
        None \<Rightarrow> None
      | Some (Inl e) \<Rightarrow> Some (Inl e)
      | Some (Inr (b, ds')) \<Rightarrow>
          (case run ds' ops of
             None \<Rightarrow> None
           | Some (Inl e) \<Rightarrow> Some (Inl e)
           | Some (Inr (rs, ds'')) \<Rightarrow> Some (Inr (Merged b # rs, ds''))))"

fun op_ok :: "nat \<Rightarrow> op \<Rightarrow> bool" where
  "op_ok n (Find x) \<longleftrightarrow> x < n"
| "op_ok n (Union x y) \<longleftrightarrow> x < n \<and> y < n"

text \<open>
  The roots of a state, in index order: the indices \<^verbatim>\<open>i\<close> with \<^verbatim>\<open>parent[i] == i\<close>.
\<close>
definition roots :: "disjoint_set \<Rightarrow> nat list" where
  "roots ds = filter (\<lambda>i. parent ds ! i = i) [0..<length (parent ds)]"

text \<open>
  The merge step in the words of the specification (section 4.3): root \<open>b\<close> is attached
  under the surviving root \<open>a\<close>, the size of \<open>b\<close> is added to the size of \<open>a\<close>, and
  the rank of \<open>a\<close> is incremented only when the two ranks are equal. It is compared with
  \<open>union_ds\<close> below.
\<close>
definition link_roots :: "disjoint_set \<Rightarrow> nat \<Rightarrow> nat \<Rightarrow> disjoint_set" where
  "link_roots ds a b =
     ds\<lparr>parent := (parent ds)[b := a],
        size_ds := (size_ds ds)[a := size_ds ds ! a + size_ds ds ! b],
        rank := (if rank ds ! a = rank ds ! b
                 then (rank ds)[a := rank ds ! a + 1] else rank ds)\<rparr>"

subsection \<open>Parsing\<close>

text \<open>
  A Python string is modelled by the list of its code points, all below 256. Three built-ins
  are used by \<^verbatim>\<open>parse_coordinates\<close>:
  \<^item> \<^verbatim>\<open>str.splitlines()\<close>: breaks at LF, VT, FF, CR, CR LF, FS, GS, RS and NEL (code
    points 10, 11, 12, 13, 28, 29, 30, 133) and returns no empty last line;
  \<^item> \<^verbatim>\<open>str.split(',')\<close>: the fields between separators, at least one;
  \<^item> \<^verbatim>\<open>int(s)\<close>: white space is stripped at both ends (code points 9 to 13, 32, 133
    and 160), then an optional sign and decimal digits with single underscores between
    digits; anything else raises ValueError, and so does a literal of more than 4300
    digits (leading zeros counted, underscores not), the default of
    \<^verbatim>\<open>sys.set_int_max_str_digits\<close> in CPython 3.11.
\<close>
definition line_boundary :: "char \<Rightarrow> bool" where
  "line_boundary c \<longleftrightarrow>
     of_char c \<in> {10, 11, 12, 13, 28, 29, 30, 133 :: nat}"

fun splitlines_from :: "string \<Rightarrow> string \<Rightarrow> string list" where
  "splitlines_from cur [] = (if cur = [] then [] else [cur])"
| "splitlines_from cur (c # cs) =
     (if c = CHR 0x0D \<and> cs \<noteq> [] \<and> hd cs = CHR 0x0A then cur # splitlines_from [] (tl cs)
      else if line_boundary c then cur # splitlines_from [] cs
      else splitlines_from (cur @ [c]) cs)"

definition splitlines :: "string \<Rightarrow> string list" where
  "splitlines s = splitlines_from [] s"

fun split_on :: "char \<Rightarrow> string \<Rightarrow> string list" where
  "split_on sep [] = [[]]"
| "split_on sep (c # cs) =
     (if c = sep then [] # split_on sep cs
      else (case split_on sep cs of
              [] \<Rightarrow> [[c]]
            | t # ts \<Rightarrow> (c # t) # ts))"

definition int_space :: "char \<Rightarrow> bool" where
  "int_space c \<longleftrightarrow> of_char c \<in> {9, 10, 11, 12, 13, 32, 133, 160 :: nat}"

definition is_digit :: "char \<Rightarrow> bool" where
  "is_digit c \<longleftrightarrow> (48::nat) \<le> of_char c \<and> of_char c \<le> (57::nat)"

fun digits_value :: "bool \<Rightarrow> int \<Rightarrow> string \<Rightarrow> int option" where
  "digits_value prev acc [] = (if prev then Some acc else None)"
| "digits_value prev acc (c # cs) =
     (if is_digit c then digits_value True (10 * acc + (of_char c - 48)) cs
      else if c = CHR ''_'' \<and> prev then digits_value False acc cs
      else None)"

definition py_int :: "string \<Rightarrow> error + int" where
  "py_int s =
     (let t = rev (dropWhile int_space (rev (dropWhile int_space s)));
          neg = (t \<noteq> [] \<and> hd t = CHR ''-'');
          body = (if t \<noteq> [] \<and> (hd t = CHR ''-'' \<or> hd t = CHR ''+'') then tl t else t)
      in if 4300 < length (filter is_digit body) then Inl ValueError
         else case digits_value False 0 body of
                None \<Rightarrow> Inl ValueError
              | Some v \<Rightarrow> Inr (if neg then - v else v))"

text \<open>
  A list comprehension or \<^verbatim>\<open>map\<close> whose element function may raise: elements are
  computed left to right and the first exception ends the computation.
\<close>
fun map_result :: "('a \<Rightarrow> error + 'b) \<Rightarrow> 'a list \<Rightarrow> error + 'b list" where
  "map_result f [] = Inr []"
| "map_result f (x # xs) =
     (case f x of
        Inl e \<Rightarrow> Inl e
      | Inr y \<Rightarrow> (case map_result f xs of Inl e \<Rightarrow> Inl e | Inr ys \<Rightarrow> Inr (y # ys)))"

text \<open>
  \<^verbatim>\<open>parse_coordinates\<close> (line 83):
  \<^verbatim>\<open>[tuple(map(int, line.split(','))) for line in data.splitlines()]\<close>. A tuple is a list
  of integers here, since the source builds it from however many fields the line has.
\<close>
definition parse_coordinates :: "string \<Rightarrow> error + int list list" where
  "parse_coordinates data =
     map_result (\<lambda>line. map_result py_int (split_on CHR '','' line)) (splitlines data)"

subsection \<open>Distances and their ranking\<close>

text \<open>
  \<^verbatim>\<open>euclidean_distance\<close> (lines 98-100) reads the entries 0, 1 and 2 of both tuples
  (IndexError on a shorter tuple), adds the squared differences as an exact integer and
  raises the sum to the power 0.5, which converts it to a double.

  Floating-point arithmetic is not embedded. The last step is the parameter \<open>pow_half\<close>
  of the model: it maps the integer sum to the computed distance, a value of an arbitrary
  linearly ordered type, or to the exception the conversion raises (OverflowError for a sum
  too large for a double). Everything proved below holds for every such function.
  Two instances are used for evaluation. \<open>exact_key\<close> keeps the integer sum itself and
  never raises. \<open>bounded_key\<close> raises OverflowError for every sum of at least \<open>2 ^ 1024\<close>,
  which no double can hold (the conversion of the source raises there, and also for the
  few sums just below that round up to it), and keeps the sum otherwise.
\<close>
definition euclidean_distance ::
  "(int \<Rightarrow> error + 'f) \<Rightarrow> int list \<Rightarrow> int list \<Rightarrow> error + 'f" where
  "euclidean_distance pow_half p1 p2 =
     (if length p1 < 3 \<or> length p2 < 3 then Inl IndexError
      else pow_half ((p1 ! 0 - p2 ! 0)\<^sup>2 + (p1 ! 1 - p2 ! 1)\<^sup>2 + (p1 ! 2 - p2 ! 2)\<^sup>2))"

text \<open>
  The nested \<^verbatim>\<open>for i in range(n): for j in range(i+1, n)\<close> (lines 121-124 and
  166-169) statements enumerate the pairs in this order and append \<^verbatim>\<open>(dist, i, j)\<close>;
  \<^verbatim>\<open>distances.sort()\<close> then sorts the triples, which Python compares
  lexicographically. Both \<^verbatim>\<open>part1\<close> and \<^verbatim>\<open>part2\<close> contain the same lines; they are
  one definition, \<open>ranking\<close>, here. The order on triples is the lexicographic one.
\<close>
definition index_pairs :: "nat \<Rightarrow> (nat \<times> nat) list" where
  "index_pairs n = concat (map (\<lambda>i. map (\<lambda>j. (i, j)) [i + 1..<n]) [0..<n])"

definition pairwise_distances ::
  "(int \<Rightarrow> error + 'f) \<Rightarrow> int list list \<Rightarrow> error + ('f \<times> nat \<times> nat) list" where
  "pairwise_distances pow_half coordinates =
     map_result
       (\<lambda>(i, j). case euclidean_distance pow_half (coordinates ! i) (coordinates ! j) of
                   Inl e \<Rightarrow> Inl e
                 | Inr dist \<Rightarrow> Inr (dist, i, j))
       (index_pairs (length coordinates))"

definition ranking ::
  "(int \<Rightarrow> error + 'f::linorder) \<Rightarrow> int list list \<Rightarrow> error + ('f \<times> nat \<times> nat) list" where
  "ranking pow_half coordinates =
     (case pairwise_distances pow_half coordinates of
        Inl e \<Rightarrow> Inl e
      | Inr ds \<Rightarrow> Inr (sort ds))"

subsection \<open>The two drivers\<close>

text \<open>
  The loop of \<^verbatim>\<open>part1\<close> (lines 131-137): \<^verbatim>\<open>union\<close> on every edge, the counter
  \<^verbatim>\<open>attempts\<close> incremented after every call, \<^verbatim>\<open>break\<close> when it equals the
  threshold. The threshold is the argument \<open>limit\<close>; \<open>part1\<close> passes the literal 1000
  of line 136.
\<close>
fun connect_attempts ::
  "nat \<Rightarrow> disjoint_set \<Rightarrow> nat \<Rightarrow> ('f \<times> nat \<times> nat) list \<Rightarrow> (error + disjoint_set) option" where
  "connect_attempts limit ds attempts [] = Some (Inr ds)"
| "connect_attempts limit ds attempts ((d, x, y) # es) =
     (case union_ds ds x y of
        None \<Rightarrow> None
      | Some (Inl e) \<Rightarrow> Some (Inl e)
      | Some (Inr (merged, ds')) \<Rightarrow>
          (let attempts' = attempts + 1
           in if attempts' = limit then Some (Inr ds')
              else connect_attempts limit ds' attempts' es))"

text \<open>
  The comprehension of lines 140-141,
  \<^verbatim>\<open>[size[i] for i in range(n) if find(i) == i]\<close>: every \<^verbatim>\<open>find\<close> may compress
  paths, so the state is threaded through.
\<close>
fun circuit_sizes ::
  "disjoint_set \<Rightarrow> nat list \<Rightarrow> (error + nat list \<times> disjoint_set) option" where
  "circuit_sizes ds [] = Some (Inr ([], ds))"
| "circuit_sizes ds (i # rest) =
     (case find_ds ds i of
        None \<Rightarrow> None
      | Some (Inl e) \<Rightarrow> Some (Inl e)
      | Some (Inr (r, ds')) \<Rightarrow>
          if r = i then
            (if length (size_ds ds') \<le> i then Some (Inl IndexError)
             else (case circuit_sizes ds' rest of
                     None \<Rightarrow> None
                   | Some (Inl e) \<Rightarrow> Some (Inl e)
                   | Some (Inr (szs, ds'')) \<Rightarrow> Some (Inr (size_ds ds' ! i # szs, ds''))))
          else circuit_sizes ds' rest)"

text \<open>
  \<^verbatim>\<open>part1\<close> (lines 116-145) with its threshold as an argument. The sizes are sorted in
  descending order and the first three are multiplied; indexing a list of fewer than three
  sizes raises IndexError.
\<close>
definition part1_limit ::
  "nat \<Rightarrow> (int \<Rightarrow> error + 'f::linorder) \<Rightarrow> string \<Rightarrow> (error + nat) option" where
  "part1_limit limit pow_half data =
     (case parse_coordinates data of
        Inl e \<Rightarrow> Some (Inl e)
      | Inr coordinates \<Rightarrow>
     (let n = length coordinates
      in case ranking pow_half coordinates of
        Inl e \<Rightarrow> Some (Inl e)
      | Inr distances \<Rightarrow>
     (case connect_attempts limit (DisjointSet n) 0 distances of
        None \<Rightarrow> None
      | Some (Inl e) \<Rightarrow> Some (Inl e)
      | Some (Inr disjoint_set) \<Rightarrow>
     (case circuit_sizes disjoint_set [0..<n] of
        None \<Rightarrow> None
      | Some (Inl e) \<Rightarrow> Some (Inl e)
      | Some (Inr (szs, ds')) \<Rightarrow>
          (let sorted_sizes = rev (sort szs)
           in if length sorted_sizes < 3 then Some (Inl IndexError)
              else Some (Inr (sorted_sizes ! 0 * sorted_sizes ! 1 * sorted_sizes ! 2)))))))"

definition part1 :: "(int \<Rightarrow> error + 'f::linorder) \<Rightarrow> string \<Rightarrow> (error + nat) option" where
  "part1 pow_half data = part1_limit 1000 pow_half data"

text \<open>
  The loop of \<^verbatim>\<open>part2\<close> (lines 176-186): the counter \<^verbatim>\<open>circuits\<close> is decremented
  only when \<^verbatim>\<open>union\<close> returns \<^verbatim>\<open>True\<close>; when it reaches 1 the product of the
  two x-coordinates is returned; when the edges run out the function returns -1.
\<close>
fun connect_all ::
  "int list list \<Rightarrow> disjoint_set \<Rightarrow> int \<Rightarrow> ('f \<times> nat \<times> nat) list \<Rightarrow> (error + int) option" where
  "connect_all coordinates ds circuits [] = Some (Inr (- 1))"
| "connect_all coordinates ds circuits ((d, x, y) # es) =
     (case union_ds ds x y of
        None \<Rightarrow> None
      | Some (Inl e) \<Rightarrow> Some (Inl e)
      | Some (Inr (merged, ds')) \<Rightarrow>
          if merged then
            (let circuits' = circuits - 1
             in if circuits' = 1 then
                  (if length coordinates \<le> x \<or> length coordinates \<le> y
                      \<or> coordinates ! x = [] \<or> coordinates ! y = []
                   then Some (Inl IndexError)
                   else Some (Inr (coordinates ! x ! 0 * coordinates ! y ! 0)))
                else connect_all coordinates ds' circuits' es)
          else connect_all coordinates ds' circuits es)"

definition part2 :: "(int \<Rightarrow> error + 'f::linorder) \<Rightarrow> string \<Rightarrow> (error + int) option" where
  "part2 pow_half data =
     (case parse_coordinates data of
        Inl e \<Rightarrow> Some (Inl e)
      | Inr coordinates \<Rightarrow>
     (let n = length coordinates
      in case ranking pow_half coordinates of
        Inl e \<Rightarrow> Some (Inl e)
      | Inr distances \<Rightarrow> connect_all coordinates (DisjointSet n) (int n) distances))"

subsection \<open>Notions used to state the properties\<close>

text \<open>
  \<open>edge_union\<close> is the call of \<^verbatim>\<open>union\<close> a driver makes for a ranked edge.
  \<open>root_of l x r\<close>: following parent pointers in \<open>l\<close> from \<open>x\<close> ends at the root \<open>r\<close>.
  \<open>on_path l x v\<close>: \<open>v\<close> is one of the nodes visited on the way from \<open>x\<close> to its root.
  \<open>same_comp\<close>: two indices have the same root. \<open>invar\<close>: the invariant of the
  structure (the three lists have length \<open>n\<close>, every index has a root, and the size
  recorded at a root is the number of indices with that root).
\<close>
definition edge_union :: "'f \<times> nat \<times> nat \<Rightarrow> op" where
  "edge_union e = Union (fst (snd e)) (snd (snd e))"

definition exact_key :: "int \<Rightarrow> error + int" where
  "exact_key s = Inr s"

definition bounded_key :: "int \<Rightarrow> error + int" where
  "bounded_key s = (if 2 ^ 1024 \<le> s then Inl OverflowError else Inr s)"

inductive root_of :: "nat list \<Rightarrow> nat \<Rightarrow> nat \<Rightarrow> bool" for l where
  root_self: "x < length l \<Longrightarrow> l ! x = x \<Longrightarrow> root_of l x x"
| root_step: "x < length l \<Longrightarrow> l ! x \<noteq> x \<Longrightarrow> root_of l (l ! x) r \<Longrightarrow> root_of l x r"

inductive on_path :: "nat list \<Rightarrow> nat \<Rightarrow> nat \<Rightarrow> bool" for l where
  path_self: "x < length l \<Longrightarrow> on_path l x x"
| path_step: "x < length l \<Longrightarrow> l ! x \<noteq> x \<Longrightarrow> on_path l (l ! x) v \<Longrightarrow> on_path l x v"

definition same_comp :: "nat list \<Rightarrow> nat \<Rightarrow> nat \<Rightarrow> bool" where
  "same_comp l u v \<longleftrightarrow> (\<exists>r. root_of l u r \<and> root_of l v r)"

definition invar :: "nat \<Rightarrow> disjoint_set \<Rightarrow> bool" where
  "invar n ds \<longleftrightarrow>
     length (parent ds) = n \<and> length (rank ds) = n \<and> length (size_ds ds) = n \<and>
     (\<forall>x<n. \<exists>r. root_of (parent ds) x r) \<and>
     (\<forall>r<n. parent ds ! r = r \<longrightarrow> size_ds ds ! r = card {x. root_of (parent ds) x r})"

section \<open>Roots and path compression\<close>


lemma root_of_bounds:
  "root_of l x r \<Longrightarrow> x < length l \<and> r < length l \<and> l ! r = r"
  by (induction rule: root_of.induct) auto

lemma root_of_fun:
  "root_of l x r \<Longrightarrow> root_of l x s \<Longrightarrow> s = r"
proof (induction arbitrary: s rule: root_of.induct)
  case (root_self x)
  from root_self.prems root_self.hyps show ?case
    by (cases rule: root_of.cases) auto
next
  case (root_step x r)
  from root_step.prems root_step.hyps(2) have "root_of l (l ! x) s"
    by (cases rule: root_of.cases) auto
  then show ?case by (rule root_step.IH)
qed

lemma root_of_at_root:
  "x < length l \<Longrightarrow> l ! x = x \<Longrightarrow> root_of l x s \<longleftrightarrow> s = x"
  using root_of_fun root_self by blast

lemma root_of_idem: "root_of l x r \<Longrightarrow> root_of l r r"
  using root_of_bounds root_self by blast

lemma root_of_compress_fwd:
  assumes xr: "root_of l x r"
  shows "root_of l i s \<Longrightarrow> root_of (l[x := r]) i s"
proof (induction rule: root_of.induct)
  case (root_self i)
  have "l[x := r] ! i = i"
  proof (cases "i = x")
    case True
    with root_self xr have "r = x" using root_of_at_root by blast
    with True root_self show ?thesis by simp
  next
    case False
    with root_self show ?thesis by simp
  qed
  with root_self show ?case by (simp add: root_of.root_self)
next
  case (root_step i s)
  show ?case
  proof (cases "i = x")
    case True
    from root_step.hyps have "root_of l i s" by (rule root_of.root_step)
    with True xr have sr: "s = r" using root_of_fun by blast
    have rr: "r < length l" "l ! r = r" using xr root_of_bounds by blast+
    have "r \<noteq> x" using rr root_step.hyps True by auto
    then have "root_of (l[x := r]) r r" using rr by (simp add: root_of.root_self)
    then show ?thesis using True sr root_step.hyps \<open>r \<noteq> x\<close>
      by (auto intro: root_of.root_step)
  next
    case False
    then show ?thesis using root_step by (auto intro: root_of.root_step)
  qed
qed

lemma root_of_compress_bwd:
  assumes xr: "root_of l x r"
  shows "root_of (l[x := r]) i s \<Longrightarrow> root_of l i s"
proof (induction rule: root_of.induct)
  case (root_self i)
  show ?case
  proof (cases "i = x")
    case True
    with root_self have "r = x" by simp
    with xr True show ?thesis by simp
  next
    case False
    with root_self show ?thesis by (simp add: root_of.root_self)
  qed
next
  case (root_step i s)
  show ?case
  proof (cases "i = x")
    case True
    with root_step.hyps have "l[x := r] ! i = r" by simp
    with root_step.IH have "root_of l r s" by simp
    moreover have "root_of l r r" using xr by (rule root_of_idem)
    ultimately have "s = r" using root_of_fun by blast
    with xr True show ?thesis by simp
  next
    case False
    then show ?thesis using root_step by (auto intro: root_of.root_step)
  qed
qed

lemma root_of_compress:
  "root_of l x r \<Longrightarrow> root_of (l[x := r]) i s \<longleftrightarrow> root_of l i s"
  using root_of_compress_fwd root_of_compress_bwd by blast

lemma on_path_unfold:
  "on_path l x v \<longleftrightarrow> x < length l \<and> (v = x \<or> (l ! x \<noteq> x \<and> on_path l (l ! x) v))"
proof
  assume "on_path l x v"
  then show "x < length l \<and> (v = x \<or> (l ! x \<noteq> x \<and> on_path l (l ! x) v))"
    by (cases rule: on_path.cases) auto
next
  assume "x < length l \<and> (v = x \<or> (l ! x \<noteq> x \<and> on_path l (l ! x) v))"
  then show "on_path l x v"
    by (auto intro: on_path.intros)
qed

lemma find_ds_root:
  "x < length (parent ds) \<Longrightarrow> parent ds ! x = x \<Longrightarrow> find_ds ds x = Some (Inr (x, ds))"
  by (subst find_ds.simps) simp

lemma find_ds_correct:
  "root_of (parent ds) x r \<Longrightarrow>
   \<exists>ds'. find_ds ds x = Some (Inr (r, ds')) \<and> rank ds' = rank ds \<and> size_ds ds' = size_ds ds
      \<and> length (parent ds') = length (parent ds)
      \<and> (\<forall>i s. root_of (parent ds') i s \<longleftrightarrow> root_of (parent ds) i s)
      \<and> (\<forall>i<length (parent ds). parent ds' ! i = (if on_path (parent ds) x i then r else parent ds ! i))"
proof (induction rule: root_of.induct)
  case (root_self x)
  have "\<forall>i<length (parent ds). on_path (parent ds) x i \<longrightarrow> i = x"
    using root_self by (subst on_path_unfold) auto
  with root_self show ?case by (auto simp: find_ds_root)
next
  case (root_step x r)
  then obtain ds1 where f1: "find_ds ds (parent ds ! x) = Some (Inr (r, ds1))"
    and rk: "rank ds1 = rank ds" and sz: "size_ds ds1 = size_ds ds"
    and len: "length (parent ds1) = length (parent ds)"
    and ro: "\<forall>i s. root_of (parent ds1) i s \<longleftrightarrow> root_of (parent ds) i s"
    and pt: "\<forall>i<length (parent ds). parent ds1 ! i =
               (if on_path (parent ds) (parent ds ! x) i then r else parent ds ! i)"
    by blast
  let ?ds' = "ds1\<lparr>parent := (parent ds1)[x := r]\<rparr>"
  have f: "find_ds ds x = Some (Inr (r, ?ds'))"
    apply (subst find_ds.simps)
    using root_step.hyps f1 len apply (simp add: Let_def)
    done
  have "root_of (parent ds) x r" using root_step.hyps by (rule root_of.root_step)
  then have "root_of (parent ds1) x r" using ro by simp
  then have ro': "\<forall>i s. root_of (parent ?ds') i s \<longleftrightarrow> root_of (parent ds) i s"
    using ro by (simp add: root_of_compress)
  have pt': "\<forall>i<length (parent ds). parent ?ds' ! i =
               (if on_path (parent ds) x i then r else parent ds ! i)"
  proof (intro allI impI)
    fix i assume i: "i < length (parent ds)"
    show "parent ?ds' ! i = (if on_path (parent ds) x i then r else parent ds ! i)"
    proof (cases "i = x")
      case True
      then show ?thesis using i len by (simp add: on_path.path_self)
    next
      case False
      have "on_path (parent ds) x i \<longleftrightarrow> on_path (parent ds) (parent ds ! x) i"
        using False root_step.hyps by (subst on_path_unfold) auto
      then show ?thesis using False pt i by simp
    qed
  qed
  show ?case
    apply (rule exI[of _ "?ds'"])
    using f rk sz len ro' pt' apply simp
    done
qed

section \<open>Linking two roots and the invariant\<close>


lemma root_of_link_fwd:
  assumes a: "a < length l" "l ! a = a" and b: "b < length l" "l ! b = b" and ab: "a \<noteq> b"
  shows "root_of l i t \<Longrightarrow> root_of (l[b := a]) i (if t = b then a else t)"
proof (induction rule: root_of.induct)
  case (root_self i)
  show ?case
  proof (cases "i = b")
    case True
    have "root_of (l[b := a]) a a" using a ab by (simp add: root_of.root_self)
    then have "root_of (l[b := a]) b a" using b ab by (auto intro: root_of.root_step)
    with True show ?thesis by simp
  next
    case False
    with root_self show ?thesis by (simp add: root_of.root_self)
  qed
next
  case (root_step i t)
  then have "i \<noteq> b" using b by auto
  with root_step show ?case by (auto intro: root_of.root_step)
qed

lemma root_of_link_bwd:
  assumes a: "a < length l" "l ! a = a" and b: "b < length l" "l ! b = b" and ab: "a \<noteq> b"
  shows "root_of (l[b := a]) i s \<Longrightarrow> \<exists>t. root_of l i t \<and> s = (if t = b then a else t)"
proof (induction rule: root_of.induct)
  case (root_self i)
  then have "i \<noteq> b" using ab b by auto
  with root_self have "root_of l i i" by (simp add: root_of.root_self)
  with \<open>i \<noteq> b\<close> show ?case by auto
next
  case (root_step i s)
  show ?case
  proof (cases "i = b")
    case True
    with root_step.IH b have "\<exists>t. root_of l a t \<and> s = (if t = b then a else t)" by simp
    then have "s = a" using a ab root_of_at_root by auto
    moreover have "root_of l b b" using b by (simp add: root_of.root_self)
    ultimately show ?thesis using True by auto
  next
    case False
    with root_step obtain t where "root_of l (l ! i) t" "s = (if t = b then a else t)" by auto
    moreover have "i < length l" "l ! i \<noteq> i" using root_step.hyps False by auto
    ultimately show ?thesis by (auto intro: root_of.root_step)
  qed
qed

lemma root_of_link:
  assumes "a < length l" "l ! a = a" "b < length l" "l ! b = b" "a \<noteq> b"
  shows "root_of (l[b := a]) i s \<longleftrightarrow> (\<exists>t. root_of l i t \<and> s = (if t = b then a else t))"
  using root_of_link_fwd[OF assms] root_of_link_bwd[OF assms] by blast

lemma finite_fiber: "finite {x. root_of l x r}"
proof (rule finite_subset)
  show "{x. root_of l x r} \<subseteq> {..<length l}" using root_of_bounds by auto
qed simp

lemma is_root_iff: "r < length l \<Longrightarrow> l ! r = r \<longleftrightarrow> root_of l r r"
  using root_of_bounds root_of.root_self by blast

lemma invar_init: "invar n (DisjointSet n)"
proof -
  have "{x. root_of [0..<n] x r} = {r}" if "r < n" for r
  proof -
    have "root_of [0..<n] x r \<longleftrightarrow> x = r" for x
    proof
      assume h: "root_of [0..<n] x r"
      then have "x < n" using root_of_bounds by fastforce
      then have "root_of [0..<n] x x" by (simp add: root_of.root_self)
      with h show "x = r" using root_of_fun by blast
    next
      assume "x = r"
      with that show "root_of [0..<n] x r" by (simp add: root_of.root_self)
    qed
    then show ?thesis by simp
  qed
  then show ?thesis
    by (auto simp: invar_def DisjointSet_def intro: root_of.root_self)
qed

lemma invar_find:
  assumes "invar n ds" "x < n"
  shows "\<exists>r ds'. find_ds ds x = Some (Inr (r, ds')) \<and> root_of (parent ds) x r \<and> invar n ds'
     \<and> rank ds' = rank ds \<and> size_ds ds' = size_ds ds
     \<and> (\<forall>i s. root_of (parent ds') i s \<longleftrightarrow> root_of (parent ds) i s)"
proof -
  from assms obtain r where r: "root_of (parent ds) x r" by (auto simp: invar_def)
  from find_ds_correct[OF r] obtain ds' where f: "find_ds ds x = Some (Inr (r, ds'))"
    and rk: "rank ds' = rank ds" and sz: "size_ds ds' = size_ds ds"
    and len: "length (parent ds') = length (parent ds)"
    and ro: "\<forall>i s. root_of (parent ds') i s \<longleftrightarrow> root_of (parent ds) i s"
    by blast
  have "\<forall>r<n. (parent ds' ! r = r) = (parent ds ! r = r)"
    using ro len assms(1) by (simp add: invar_def is_root_iff)
  then have "invar n ds'" using assms(1) rk sz len ro by (simp add: invar_def)
  with f r rk sz ro show ?thesis by blast
qed

lemma invar_link:
  assumes inv: "invar n ds" and a: "a < n" "parent ds ! a = a" and b: "b < n" "parent ds ! b = b"
    and ab: "a \<noteq> b"
  shows "invar n (link_roots ds a b)"
proof -
  let ?l = "parent ds" and ?l' = "(parent ds)[b := a]"
  have len: "length ?l = n" "length (rank ds) = n" "length (size_ds ds) = n"
    using inv by (auto simp: invar_def)
  have ro: "\<And>i s. root_of ?l' i s \<longleftrightarrow> (\<exists>t. root_of ?l i t \<and> s = (if t = b then a else t))"
    using root_of_link[of a ?l b] a b ab len by simp
  have ex: "\<forall>x<n. \<exists>r. root_of ?l' x r"
    using inv ro by (auto simp: invar_def)
  have sz: "size_ds (link_roots ds a b) ! r = card {x. root_of ?l' x r}"
    if r: "r < n" "?l' ! r = r" for r
  proof -
    have rb: "r \<noteq> b" using that ab b len by auto
    then have rr: "?l ! r = r" using r by simp
    show ?thesis
    proof (cases "r = a")
      case True
      have "{x. root_of ?l' x a} = {x. root_of ?l x a} \<union> {x. root_of ?l x b}"
        using ro ab by (auto split: if_splits)
      moreover have "{x. root_of ?l x a} \<inter> {x. root_of ?l x b} = {}"
        using ab root_of_fun by auto
      ultimately have "card {x. root_of ?l' x a} = card {x. root_of ?l x a} + card {x. root_of ?l x b}"
        by (simp add: card_Un_disjoint finite_fiber)
      moreover have "size_ds ds ! a = card {x. root_of ?l x a}" "size_ds ds ! b = card {x. root_of ?l x b}"
        using inv a b by (auto simp: invar_def)
      ultimately show ?thesis using True a len by (simp add: link_roots_def)
    next
      case False
      have "{x. root_of ?l' x r} = {x. root_of ?l x r}"
        using ro rb False by (auto split: if_splits)
      moreover have "size_ds ds ! r = card {x. root_of ?l x r}"
        using inv r(1) rr by (auto simp: invar_def)
      ultimately show ?thesis using False by (simp add: link_roots_def)
    qed
  qed
  show ?thesis
    unfolding invar_def using len ex sz by (simp add: link_roots_def)
qed

lemma roots_link:
  assumes "a < length (parent ds)" "parent ds ! a = a" "b < length (parent ds)" "parent ds ! b = b" "a \<noteq> b"
  shows "roots (link_roots ds a b) = filter (\<lambda>i. i \<noteq> b) (roots ds)"
proof -
  have "\<And>i. i < length (parent ds) \<Longrightarrow>
          ((parent ds)[b := a] ! i = i) = (parent ds ! i = i \<and> i \<noteq> b)"
    using assms by (auto simp: nth_list_update)
  then have "filter (\<lambda>i. (parent ds)[b := a] ! i = i) [0..<length (parent ds)] =
             filter (\<lambda>i. parent ds ! i = i \<and> i \<noteq> b) [0..<length (parent ds)]"
    by (intro filter_cong) auto
  then show ?thesis
    by (simp add: roots_def link_roots_def)
qed

section \<open>What a call of union does to a state\<close>


lemma length_filter_remove:
  "distinct xs \<Longrightarrow> b \<in> set xs \<Longrightarrow> length (filter (\<lambda>i. i \<noteq> b) xs) + 1 = length xs"
proof (induction xs)
  case Nil
  then show ?case by simp
next
  case (Cons a xs)
  show ?case
  proof (cases "a = b")
    case True
    with Cons.prems have "b \<notin> set xs" by simp
    then have "filter (\<lambda>i. i \<noteq> b) xs = xs" by (auto simp: filter_id_conv)
    with True show ?thesis by simp
  next
    case False
    with Cons show ?thesis by simp
  qed
qed

lemma roots_cong:
  assumes "length (parent ds') = length (parent ds)"
    and "\<forall>i s. root_of (parent ds') i s \<longleftrightarrow> root_of (parent ds) i s"
  shows "roots ds' = roots ds"
proof -
  have "filter (\<lambda>i. parent ds' ! i = i) [0..<length (parent ds)] =
        filter (\<lambda>i. parent ds ! i = i) [0..<length (parent ds)]"
    using assms by (intro filter_cong) (auto simp: is_root_iff)
  then show ?thesis using assms(1) by (simp add: roots_def)
qed

lemma union_ds_result:
  assumes inv: "invar n ds" and x: "x < n" and y: "y < n"
  shows "\<exists>rx ry ds1 ds2.
      find_ds ds x = Some (Inr (rx, ds1)) \<and> find_ds ds1 y = Some (Inr (ry, ds2))
    \<and> root_of (parent ds) x rx \<and> root_of (parent ds) y ry
    \<and> invar n ds2 \<and> rank ds2 = rank ds \<and> size_ds ds2 = size_ds ds
    \<and> (\<forall>i s. root_of (parent ds2) i s \<longleftrightarrow> root_of (parent ds) i s)
    \<and> union_ds ds x y = Some (Inr (rx \<noteq> ry,
          if rx = ry then ds2
          else if rank ds2 ! rx < rank ds2 ! ry then link_roots ds2 ry rx
          else link_roots ds2 rx ry))"
proof -
  from invar_find[OF inv x] obtain rx ds1 where
    f1: "find_ds ds x = Some (Inr (rx, ds1))" and rx: "root_of (parent ds) x rx"
    and inv1: "invar n ds1" and rk1: "rank ds1 = rank ds" and sz1: "size_ds ds1 = size_ds ds"
    and ro1: "\<forall>i s. root_of (parent ds1) i s \<longleftrightarrow> root_of (parent ds) i s"
    by blast
  from invar_find[OF inv1 y] obtain ry ds2 where
    f2: "find_ds ds1 y = Some (Inr (ry, ds2))" and ry1: "root_of (parent ds1) y ry"
    and inv2: "invar n ds2" and rk2: "rank ds2 = rank ds1" and sz2: "size_ds ds2 = size_ds ds1"
    and ro2: "\<forall>i s. root_of (parent ds2) i s \<longleftrightarrow> root_of (parent ds1) i s"
    by blast
  have ry: "root_of (parent ds) y ry" using ry1 ro1 by simp
  have len: "length (parent ds2) = n" "length (rank ds2) = n" "length (size_ds ds2) = n"
    using inv2 by (auto simp: invar_def)
  have "length (parent ds) = n" using inv by (simp add: invar_def)
  then have bnd: "rx < n" "ry < n" using rx ry root_of_bounds by fastforce+
  have u: "union_ds ds x y = Some (Inr (rx \<noteq> ry,
          if rx = ry then ds2
          else if rank ds2 ! rx < rank ds2 ! ry then link_roots ds2 ry rx
          else link_roots ds2 rx ry))"
    unfolding union_ds_def using f1 f2 len bnd
    by (simp add: link_roots_def Let_def)
  show ?thesis
    using f1 f2 rx ry inv2 rk1 rk2 sz1 sz2 ro1 ro2 u by (intro exI[of _ rx] exI[of _ ry] exI[of _ ds1] exI[of _ ds2]) simp
qed

lemma union_ds_post:
  assumes inv: "invar n ds" and x: "x < n" and y: "y < n"
  shows "\<exists>b ds'. union_ds ds x y = Some (Inr (b, ds')) \<and> invar n ds'
      \<and> (b \<longleftrightarrow> \<not> same_comp (parent ds) x y)
      \<and> same_comp (parent ds') x y
      \<and> (\<forall>u v. same_comp (parent ds) u v \<longrightarrow> same_comp (parent ds') u v)
      \<and> length (roots ds') + (if b then 1 else 0) = length (roots ds)"
proof -
  from union_ds_result[OF assms] obtain rx ry ds1 ds2 where
    rx: "root_of (parent ds) x rx" and ry: "root_of (parent ds) y ry"
    and inv2: "invar n ds2"
    and ro2: "\<forall>i s. root_of (parent ds2) i s \<longleftrightarrow> root_of (parent ds) i s"
    and u: "union_ds ds x y = Some (Inr (rx \<noteq> ry,
          if rx = ry then ds2
          else if rank ds2 ! rx < rank ds2 ! ry then link_roots ds2 ry rx
          else link_roots ds2 rx ry))"
    by blast
  have len: "length (parent ds2) = n" "length (parent ds) = n"
    using inv inv2 by (auto simp: invar_def)
  have b_iff: "(rx \<noteq> ry) \<longleftrightarrow> \<not> same_comp (parent ds) x y"
    using rx ry root_of_fun unfolding same_comp_def by blast
  have rts: "roots ds2 = roots ds" using roots_cong ro2 len by simp
  show ?thesis
  proof (cases "rx = ry")
    case True
    have "same_comp (parent ds2) x y" using True rx ry ro2 by (auto simp: same_comp_def)
    moreover have "\<forall>u v. same_comp (parent ds) u v \<longrightarrow> same_comp (parent ds2) u v"
      using ro2 by (simp add: same_comp_def)
    ultimately show ?thesis using True u inv2 b_iff rts by auto
  next
    case False
    define a where "a = (if rank ds2 ! rx < rank ds2 ! ry then ry else rx)"
    define b where "b = (if rank ds2 ! rx < rank ds2 ! ry then rx else ry)"
    have u': "union_ds ds x y = Some (Inr (True, link_roots ds2 a b))"
      using u False by (simp add: a_def b_def)
    have rt: "rx < n" "parent ds2 ! rx = rx" "ry < n" "parent ds2 ! ry = ry"
      using rx ry ro2 root_of_bounds[of "parent ds2"] len by auto
    then have ab: "a < n" "parent ds2 ! a = a" "b < n" "parent ds2 ! b = b" "a \<noteq> b"
      using False by (auto simp: a_def b_def)
    have xy: "(a = rx \<and> b = ry) \<or> (a = ry \<and> b = rx)" by (auto simp: a_def b_def)
    have inv': "invar n (link_roots ds2 a b)" using invar_link[OF inv2 ab] .
    have pl: "parent (link_roots ds2 a b) = (parent ds2)[b := a]" by (simp add: link_roots_def)
    have ro: "\<And>i s. root_of (parent (link_roots ds2 a b)) i s \<longleftrightarrow>
                (\<exists>t. root_of (parent ds) i t \<and> s = (if t = b then a else t))"
      unfolding pl using root_of_link[of a "parent ds2" b] ab len ro2 by simp
    have sxy: "same_comp (parent (link_roots ds2 a b)) x y"
      unfolding same_comp_def ro using rx ry xy by (intro exI[of _ a]) auto
    have mono: "\<forall>u v. same_comp (parent ds) u v \<longrightarrow> same_comp (parent (link_roots ds2 a b)) u v"
      unfolding same_comp_def ro by blast
    have "b \<in> set (roots ds2)" using ab len by (simp add: roots_def)
    moreover have "distinct (roots ds2)" by (simp add: roots_def)
    ultimately have "length (filter (\<lambda>i. i \<noteq> b) (roots ds2)) + 1 = length (roots ds2)"
      using length_filter_remove[of "roots ds2" b] by simp
    then have cnt: "length (roots (link_roots ds2 a b)) + 1 = length (roots ds)"
      using roots_link[of a ds2 b] ab len rts by simp
    show ?thesis using u' inv' b_iff False sxy mono cnt by auto
  qed
qed

lemma run_invar:
  "invar n ds \<Longrightarrow> \<forall>p\<in>set ops. op_ok n p \<Longrightarrow>
   \<exists>rs ds'. run ds ops = Some (Inr (rs, ds')) \<and> invar n ds' \<and> length rs = length ops
     \<and> (\<forall>u v. same_comp (parent ds) u v \<longrightarrow> same_comp (parent ds') u v)
     \<and> (\<forall>x y. Union x y \<in> set ops \<longrightarrow> same_comp (parent ds') x y)"
proof (induction ops arbitrary: ds)
  case Nil
  then show ?case by simp
next
  case (Cons p ops)
  show ?case
  proof (cases p)
    case (Find x)
    with Cons.prems have "x < n" by simp
    from invar_find[OF Cons.prems(1) this] obtain r ds1 where
      f: "find_ds ds x = Some (Inr (r, ds1))" and i1: "invar n ds1"
      and ro: "\<forall>i s. root_of (parent ds1) i s \<longleftrightarrow> root_of (parent ds) i s" by blast
    from Cons.IH[OF i1] Cons.prems(2) obtain rs ds' where
      r: "run ds1 ops = Some (Inr (rs, ds'))" and i': "invar n ds'" and l: "length rs = length ops"
      and m: "\<forall>u v. same_comp (parent ds1) u v \<longrightarrow> same_comp (parent ds') u v"
      and e: "\<forall>x y. Union x y \<in> set ops \<longrightarrow> same_comp (parent ds') x y" by auto
    have "run ds (p # ops) = Some (Inr (Root r # rs, ds'))" using Find f r by simp
    moreover have "\<forall>u v. same_comp (parent ds) u v \<longrightarrow> same_comp (parent ds') u v"
      using m ro by (simp add: same_comp_def)
    ultimately show ?thesis using i' l e Find by auto
  next
    case (Union x y)
    with Cons.prems have "x < n" "y < n" by simp_all
    from union_ds_post[OF Cons.prems(1) this] obtain b ds1 where
      f: "union_ds ds x y = Some (Inr (b, ds1))" and i1: "invar n ds1"
      and sxy: "same_comp (parent ds1) x y"
      and mono: "\<forall>u v. same_comp (parent ds) u v \<longrightarrow> same_comp (parent ds1) u v" by blast
    from Cons.IH[OF i1] Cons.prems(2) obtain rs ds' where
      r: "run ds1 ops = Some (Inr (rs, ds'))" and i': "invar n ds'" and l: "length rs = length ops"
      and m: "\<forall>u v. same_comp (parent ds1) u v \<longrightarrow> same_comp (parent ds') u v"
      and e: "\<forall>x y. Union x y \<in> set ops \<longrightarrow> same_comp (parent ds') x y" by auto
    have "run ds (p # ops) = Some (Inr (Merged b # rs, ds'))" using Union f r by simp
    moreover have "\<forall>u v. same_comp (parent ds) u v \<longrightarrow> same_comp (parent ds') u v"
      using m mono by blast
    moreover have "same_comp (parent ds') x y" using sxy m by blast
    ultimately show ?thesis using i' l e Union by auto
  qed
qed

section \<open>Reachable states: sizes and the partition invariant\<close>


lemma find_ds_out_of_range:
  "length (parent ds) \<le> x \<Longrightarrow> find_ds ds x = Some (Inl IndexError)"
  by (subst find_ds.simps) simp

lemma union_ds_out_of_range:
  assumes "invar n ds" "\<not> (x < n \<and> y < n)"
  shows "union_ds ds x y = Some (Inl IndexError)"
proof (cases "x < n")
  case False
  then have "find_ds ds x = Some (Inl IndexError)"
    using assms(1) by (simp add: find_ds_out_of_range invar_def)
  then show ?thesis by (simp add: union_ds_def)
next
  case True
  from invar_find[OF assms(1) True] obtain r ds1 where
    f: "find_ds ds x = Some (Inr (r, ds1))" and i1: "invar n ds1" by blast
  have "find_ds ds1 y = Some (Inl IndexError)"
    using True assms(2) i1 by (simp add: find_ds_out_of_range invar_def)
  with f show ?thesis by (simp add: union_ds_def)
qed

lemma run_reach:
  "invar n ds \<Longrightarrow> run ds ops = Some (Inr (rs, ds')) \<Longrightarrow> invar n ds' \<and> (\<forall>p\<in>set ops. op_ok n p)"
proof (induction ops arbitrary: ds rs)
  case Nil
  then show ?case by simp
next
  case (Cons p ops)
  show ?case
  proof (cases p)
    case (Find x)
    have x: "x < n"
    proof (rule ccontr)
      assume "\<not> x < n"
      then have "find_ds ds x = Some (Inl IndexError)"
        using Cons.prems(1) by (simp add: find_ds_out_of_range invar_def)
      with Cons.prems(2) Find show False by simp
    qed
    from invar_find[OF Cons.prems(1) x] obtain r ds1 where
      f: "find_ds ds x = Some (Inr (r, ds1))" and i1: "invar n ds1" by blast
    from Cons.prems(2) Find f obtain rs1 where "run ds1 ops = Some (Inr (rs1, ds'))"
      by (auto split: option.splits sum.splits)
    from Cons.IH[OF i1 this] x Find show ?thesis by simp
  next
    case (Union x y)
    have xy: "x < n \<and> y < n"
    proof (rule ccontr)
      assume "\<not> (x < n \<and> y < n)"
      from union_ds_out_of_range[OF Cons.prems(1) this] Cons.prems(2) Union
      show False by simp
    qed
    from union_ds_post[OF Cons.prems(1)] xy obtain b ds1 where
      f: "union_ds ds x y = Some (Inr (b, ds1))" and i1: "invar n ds1" by blast
    from Cons.prems(2) Union f obtain rs1 where "run ds1 ops = Some (Inr (rs1, ds'))"
      by (auto split: option.splits sum.splits)
    from Cons.IH[OF i1 this] xy Union show ?thesis by simp
  qed
qed

lemma reachable_invar:
  "run (DisjointSet n) ops = Some (Inr (rs, ds)) \<Longrightarrow> invar n ds"
  using run_reach[OF invar_init] by blast

lemma find_ds_returns_iff:
  assumes "invar n ds" "x < n"
  shows "(\<exists>ds'. find_ds ds x = Some (Inr (r, ds'))) \<longleftrightarrow> root_of (parent ds) x r"
proof -
  from assms obtain r0 where r0: "root_of (parent ds) x r0" by (auto simp: invar_def)
  from find_ds_correct[OF r0] obtain ds0 where "find_ds ds x = Some (Inr (r0, ds0))" by blast
  then show ?thesis using r0 root_of_fun by auto
qed

lemma fiber_find:
  assumes "invar n ds"
  shows "{x. root_of (parent ds) x r} = {x. x < n \<and> (\<exists>ds'. find_ds ds x = Some (Inr (r, ds')))}"
proof -
  have "length (parent ds) = n" using assms by (simp add: invar_def)
  then have "root_of (parent ds) x r \<Longrightarrow> x < n" for x using root_of_bounds by fastforce
  then show ?thesis using find_ds_returns_iff[OF assms] by blast
qed

lemma sum_sizes_roots:
  assumes inv: "invar n ds"
  shows "sum_list (map (\<lambda>r. size_ds ds ! r) (roots ds)) = n"
proof -
  let ?l = "parent ds"
  let ?R = "set (roots ds)"
  have len: "length ?l = n" using inv by (simp add: invar_def)
  have R: "?R = {r. r < n \<and> ?l ! r = r}" using len by (auto simp: roots_def)
  have "sum_list (map (\<lambda>r. size_ds ds ! r) (roots ds)) = (\<Sum>r\<in>?R. size_ds ds ! r)"
    by (rule sum_list_distinct_conv_sum_set) (simp add: roots_def)
  also have "\<dots> = (\<Sum>r\<in>?R. card {x. root_of ?l x r})"
    using inv R by (intro sum.cong) (auto simp: invar_def)
  also have "\<dots> = card (\<Union>r\<in>?R. {x. root_of ?l x r})"
  proof (rule card_UN_disjoint[symmetric])
    show "finite ?R" by simp
    show "\<forall>r\<in>?R. finite {x. root_of ?l x r}" by (simp add: finite_fiber)
    show "\<forall>r\<in>?R. \<forall>s\<in>?R. r \<noteq> s \<longrightarrow> {x. root_of ?l x r} \<inter> {x. root_of ?l x s} = {}"
      using root_of_fun by auto
  qed
  also have "(\<Union>r\<in>?R. {x. root_of ?l x r}) = {..<n}"
  proof -
    have "\<exists>r\<in>?R. root_of ?l x r" if "x < n" for x
    proof -
      from inv that obtain r where "root_of ?l x r" by (auto simp: invar_def)
      moreover from this have "r \<in> ?R" using root_of_bounds[of ?l x r] len R by simp
      ultimately show ?thesis by blast
    qed
    moreover have "x < n" if "root_of ?l x r" for x r
      using that root_of_bounds[of ?l x r] len by simp
    ultimately show ?thesis by auto
  qed
  finally show ?thesis by simp
qed

lemma run_invar_list_all:
  assumes "list_all (op_ok n) ops"
  shows "\<exists>rs ds. run (DisjointSet n) ops = Some (Inr (rs, ds)) \<and> invar n ds"
proof -
  from assms have "\<forall>p\<in>set ops. op_ok n p" by (simp add: list_all_iff)
  from run_invar[OF invar_init this] show ?thesis by blast
qed

text \<open>
  Property C10 (sizes at roots are exact). After any sequence of \<^verbatim>\<open>find\<close> and
  \<^verbatim>\<open>union\<close> calls on indices below \<open>n\<close>, starting from \<open>DisjointSet n\<close>, the sequence
  returns, and at every root \<open>r\<close> the recorded size is the number of indices \<open>x\<close> below
  \<open>n\<close> for which \<^verbatim>\<open>find(x)\<close> returns \<open>r\<close>.
\<close>
theorem size_at_root_exact:
  assumes "list_all (op_ok n) ops"
  shows "\<exists>rs ds. run (DisjointSet n) ops = Some (Inr (rs, ds)) \<and>
           (\<forall>r<n. parent ds ! r = r \<longrightarrow>
              size_ds ds ! r = card {x. x < n \<and> (\<exists>ds'. find_ds ds x = Some (Inr (r, ds')))})"
proof -
  from run_invar_list_all[OF assms] obtain rs ds where
    r: "run (DisjointSet n) ops = Some (Inr (rs, ds))" and inv: "invar n ds" by blast
  have "\<forall>r<n. parent ds ! r = r \<longrightarrow>
          size_ds ds ! r = card {x. x < n \<and> (\<exists>ds'. find_ds ds x = Some (Inr (r, ds')))}"
    using inv fiber_find[OF inv] by (simp add: invar_def)
  with r show ?thesis by blast
qed

theorem size_at_root_exact_witness:
  "list_all (op_ok 4) [Union 0 1, Find 1, Union 2 1]
   \<and> run (DisjointSet 4) [Union 0 1, Find 1, Union 2 1] =
       Some (Inr ([Merged True, Root 0, Merged True],
                  \<lparr>parent = [0, 0, 0, 3], rank = [1, 0, 0, 0], size_ds = [3, 1, 1, 1]\<rparr>))
   \<and> card {x. x < 4 \<and> (\<exists>ds'. find_ds
          \<lparr>parent = [0, 0, 0, 3], rank = [1, 0, 0, 0], size_ds = [3, 1, 1, 1]\<rparr> x
            = Some (Inr (0, ds')))} = 3"
proof -
  have ok: "list_all (op_ok 4) [Union 0 1, Find 1, Union 2 1]" by simp
  have r: "run (DisjointSet 4) [Union 0 1, Find 1, Union 2 1] =
       Some (Inr ([Merged True, Root 0, Merged True],
                  \<lparr>parent = [0, 0, 0, 3], rank = [1, 0, 0, 0], size_ds = [3, 1, 1, 1]\<rparr>))"
    by code_simp
  from size_at_root_exact[OF ok] r have
    "\<forall>r<4. parent \<lparr>parent = [0, 0, 0, 3], rank = [1, 0, 0, 0], size_ds = [3, 1, 1, 1]\<rparr> ! r = r \<longrightarrow>
       size_ds \<lparr>parent = [0, 0, 0, 3], rank = [1, 0, 0, 0], size_ds = [3, 1, 1, 1]\<rparr> ! r =
       card {x. x < 4 \<and> (\<exists>ds'. find_ds
          \<lparr>parent = [0, 0, 0, 3], rank = [1, 0, 0, 0], size_ds = [3, 1, 1, 1]\<rparr> x
            = Some (Inr (r, ds')))}"
    by auto
  from this[rule_format, of 0] have "card {x. x < 4 \<and> (\<exists>ds'. find_ds
          \<lparr>parent = [0, 0, 0, 3], rank = [1, 0, 0, 0], size_ds = [3, 1, 1, 1]\<rparr> x
            = Some (Inr (0, ds')))} = 3"
    by simp
  with ok r show ?thesis by blast
qed

text \<open>
  Property C4 (partition invariant). A fresh \<open>DisjointSet n\<close> has every index as its own
  parent, rank 0 and size 1, so its roots are all \<open>n\<close> indices. After any sequence of
  \<^verbatim>\<open>find\<close> and \<^verbatim>\<open>union\<close> calls on indices below \<open>n\<close> the sequence returns,
  following parent pointers from any index ends at a root, and the sizes recorded at the
  roots add up to \<open>n\<close>.
\<close>
theorem partition_invariant:
  assumes "list_all (op_ok n) ops"
  shows "parent (DisjointSet n) = [0..<n] \<and> rank (DisjointSet n) = replicate n 0 \<and>
     size_ds (DisjointSet n) = replicate n 1 \<and> roots (DisjointSet n) = [0..<n] \<and>
     (\<exists>rs ds. run (DisjointSet n) ops = Some (Inr (rs, ds)) \<and> length (parent ds) = n \<and>
         (\<forall>x<n. \<exists>r<n. root_of (parent ds) x r \<and> parent ds ! r = r) \<and>
         sum_list (map (\<lambda>r. size_ds ds ! r) (roots ds)) = n)"
proof -
  have init: "parent (DisjointSet n) = [0..<n] \<and> rank (DisjointSet n) = replicate n 0 \<and>
      size_ds (DisjointSet n) = replicate n 1 \<and> roots (DisjointSet n) = [0..<n]"
    by (simp add: DisjointSet_def roots_def filter_id_conv)
  from run_invar_list_all[OF assms] obtain rs ds where
    r: "run (DisjointSet n) ops = Some (Inr (rs, ds))" and inv: "invar n ds" by blast
  have len: "length (parent ds) = n" using inv by (simp add: invar_def)
  have "\<exists>r<n. root_of (parent ds) x r \<and> parent ds ! r = r" if "x < n" for x
  proof -
    from inv that obtain r where "root_of (parent ds) x r" by (auto simp: invar_def)
    then show ?thesis using root_of_bounds[of "parent ds" x r] len by auto
  qed
  with r len sum_sizes_roots[OF inv] init show ?thesis by blast
qed

theorem partition_invariant_witness:
  "list_all (op_ok 4) [Union 0 1, Find 1, Union 2 1]
   \<and> roots (DisjointSet 4) = [0, 1, 2, 3]
   \<and> (\<exists>rs ds. run (DisjointSet 4) [Union 0 1, Find 1, Union 2 1] = Some (Inr (rs, ds))
         \<and> length (parent ds) = 4
         \<and> sum_list (map (\<lambda>r. size_ds ds ! r) (roots ds)) = 4)"
proof -
  have ok: "list_all (op_ok 4) [Union 0 1, Find 1, Union 2 1]" by simp
  have "[0..<4] = [0, 1, 2, 3::nat]" by code_simp
  with partition_invariant[OF ok] ok show ?thesis by auto
qed

section \<open>The union and find operations on reachable states\<close>


text \<open>
  Property C3 (\<^verbatim>\<open>union\<close>), as amended. In a state reached from \<open>DisjointSet n\<close>, for
  indices \<open>x\<close> and \<open>y\<close> below \<open>n\<close>: the two calls of \<^verbatim>\<open>find\<close> return roots
  \<open>rx\<close> and \<open>ry\<close> and leave a state \<open>ds2\<close> with the same ranks, the same sizes and
  the same root for every node. If the roots are equal, \<^verbatim>\<open>union\<close> returns false with
  the state \<open>ds2\<close>. Otherwise it returns true with \<open>link_roots\<close> applied to \<open>ds2\<close>:
  the root of lower rank goes under the root of higher rank, \<open>ry\<close> under \<open>rx\<close> when the
  ranks are equal. A second \<^verbatim>\<open>union\<close> with the same arguments returns false.

  The statement without the amendment, that a call returning false changes none of the
  three lists, fails: the counterexample below shows a call that returns false
  after \<^verbatim>\<open>find\<close> has compressed a path.
\<close>
theorem union_ds_behaviour:
  assumes "run (DisjointSet n) ops = Some (Inr (rs, ds))" and "x < n" and "y < n"
  shows "\<exists>rx ry ds1 ds2 ds'.
      find_ds ds x = Some (Inr (rx, ds1)) \<and> find_ds ds1 y = Some (Inr (ry, ds2))
    \<and> rank ds2 = rank ds \<and> size_ds ds2 = size_ds ds
    \<and> (\<forall>i s. root_of (parent ds2) i s \<longleftrightarrow> root_of (parent ds) i s)
    \<and> union_ds ds x y = Some (Inr (rx \<noteq> ry, ds'))
    \<and> ds' = (if rx = ry then ds2
             else if rank ds ! rx < rank ds ! ry then link_roots ds2 ry rx
             else link_roots ds2 rx ry)
    \<and> (\<exists>ds''. union_ds ds' x y = Some (Inr (False, ds'')))"
proof -
  have inv: "invar n ds" using assms(1) by (rule reachable_invar)
  from union_ds_result[OF inv assms(2,3)] obtain rx ry ds1 ds2 where
    f1: "find_ds ds x = Some (Inr (rx, ds1))" and f2: "find_ds ds1 y = Some (Inr (ry, ds2))"
    and rk: "rank ds2 = rank ds" and sz: "size_ds ds2 = size_ds ds"
    and ro: "\<forall>i s. root_of (parent ds2) i s \<longleftrightarrow> root_of (parent ds) i s"
    and u: "union_ds ds x y = Some (Inr (rx \<noteq> ry,
          if rx = ry then ds2
          else if rank ds2 ! rx < rank ds2 ! ry then link_roots ds2 ry rx
          else link_roots ds2 rx ry))"
    by blast
  define ds' where "ds' = (if rx = ry then ds2
             else if rank ds ! rx < rank ds ! ry then link_roots ds2 ry rx
             else link_roots ds2 rx ry)"
  have u': "union_ds ds x y = Some (Inr (rx \<noteq> ry, ds'))" using u rk by (simp add: ds'_def)
  from union_ds_post[OF inv assms(2,3)] u' have inv': "invar n ds'"
    and same: "same_comp (parent ds') x y" by auto
  from union_ds_post[OF inv' assms(2,3)] same obtain ds'' where
    "union_ds ds' x y = Some (Inr (False, ds''))" by auto
  with f1 f2 rk sz ro u' ds'_def show ?thesis by blast
qed

theorem union_ds_behaviour_witness:
  "run (DisjointSet 4) [Union 0 1, Union 2 3, Union 0 2] =
     Some (Inr ([Merged True, Merged True, Merged True],
                \<lparr>parent = [0, 0, 0, 2], rank = [2, 0, 1, 0], size_ds = [4, 1, 2, 1]\<rparr>))
   \<and> (3::nat) < 4 \<and> (0::nat) < 4
   \<and> (\<exists>rx ry ds1 ds2 ds'.
      find_ds \<lparr>parent = [0, 0, 0, 2], rank = [2, 0, 1, 0], size_ds = [4, 1, 2, 1]\<rparr> 3
        = Some (Inr (rx, ds1))
    \<and> find_ds ds1 0 = Some (Inr (ry, ds2))
    \<and> union_ds \<lparr>parent = [0, 0, 0, 2], rank = [2, 0, 1, 0], size_ds = [4, 1, 2, 1]\<rparr> 3 0
        = Some (Inr (rx \<noteq> ry, ds'))
    \<and> (\<exists>ds''. union_ds ds' 3 0 = Some (Inr (False, ds''))))"
proof -
  have r: "run (DisjointSet 4) [Union 0 1, Union 2 3, Union 0 2] =
     Some (Inr ([Merged True, Merged True, Merged True],
                \<lparr>parent = [0, 0, 0, 2], rank = [2, 0, 1, 0], size_ds = [4, 1, 2, 1]\<rparr>))"
    by code_simp
  from union_ds_behaviour[OF r, of 3 0] r show ?thesis by auto
qed

theorem union_ds_noop_counterexample:
  "run (DisjointSet 4) [Union 0 1, Union 2 3, Union 0 2] =
     Some (Inr ([Merged True, Merged True, Merged True],
                \<lparr>parent = [0, 0, 0, 2], rank = [2, 0, 1, 0], size_ds = [4, 1, 2, 1]\<rparr>))
   \<and> union_ds \<lparr>parent = [0, 0, 0, 2], rank = [2, 0, 1, 0], size_ds = [4, 1, 2, 1]\<rparr> 3 0 =
     Some (Inr (False, \<lparr>parent = [0, 0, 0, 0], rank = [2, 0, 1, 0], size_ds = [4, 1, 2, 1]\<rparr>))
   \<and> parent \<lparr>parent = [0, 0, 0, 0], rank = [2, 0, 1, 0], size_ds = [4, 1, 2, 1]\<rparr> \<noteq>
     parent \<lparr>parent = [0, 0, 0, 2], rank = [2, 0, 1, 0], size_ds = [4, 1, 2, 1::nat]\<rparr>"
  by code_simp

text \<open>
  Property C8 (\<^verbatim>\<open>find\<close>). In a state reached from \<open>DisjointSet n\<close>, for \<open>x\<close> below
  \<open>n\<close>: \<^verbatim>\<open>find(x)\<close> returns a root \<open>r\<close>, and called again at once it returns
  \<open>r\<close> again; after the first call every node on the path from \<open>x\<close> to its root has
  parent \<open>r\<close> and every other parent is unchanged; the root that \<^verbatim>\<open>find\<close> returns for
  any index, the ranks and the sizes are unchanged.
\<close>
theorem find_ds_idempotent:
  assumes "run (DisjointSet n) ops = Some (Inr (rs, ds))" and "x < n"
  shows "\<exists>r ds1 ds2.
      find_ds ds x = Some (Inr (r, ds1)) \<and> find_ds ds1 x = Some (Inr (r, ds2))
    \<and> (\<forall>v<n. parent ds1 ! v = (if on_path (parent ds) x v then r else parent ds ! v))
    \<and> (\<forall>y<n. \<forall>s. (\<exists>d. find_ds ds1 y = Some (Inr (s, d))) \<longleftrightarrow>
                   (\<exists>d. find_ds ds y = Some (Inr (s, d))))
    \<and> rank ds1 = rank ds \<and> size_ds ds1 = size_ds ds"
proof -
  have inv: "invar n ds" using assms(1) by (rule reachable_invar)
  then have len: "length (parent ds) = n" by (simp add: invar_def)
  from inv assms(2) obtain r where r: "root_of (parent ds) x r" by (auto simp: invar_def)
  from find_ds_correct[OF r] obtain ds1 where f1: "find_ds ds x = Some (Inr (r, ds1))"
    and rk: "rank ds1 = rank ds" and sz: "size_ds ds1 = size_ds ds"
    and ro: "\<forall>i s. root_of (parent ds1) i s \<longleftrightarrow> root_of (parent ds) i s"
    and pt: "\<forall>i<length (parent ds). parent ds1 ! i =
               (if on_path (parent ds) x i then r else parent ds ! i)"
    by blast
  from invar_find[OF inv assms(2)] f1 have inv1: "invar n ds1" by auto
  have "root_of (parent ds1) x r" using r ro by simp
  from find_ds_correct[OF this] obtain ds2 where f2: "find_ds ds1 x = Some (Inr (r, ds2))"
    by blast
  have "\<forall>y<n. \<forall>s. (\<exists>d. find_ds ds1 y = Some (Inr (s, d))) \<longleftrightarrow>
                   (\<exists>d. find_ds ds y = Some (Inr (s, d)))"
    using find_ds_returns_iff[OF inv] find_ds_returns_iff[OF inv1] ro by simp
  with f1 f2 pt len rk sz show ?thesis by blast
qed

theorem find_ds_idempotent_witness:
  "run (DisjointSet 4) [Union 0 1, Union 2 3, Union 0 2] =
     Some (Inr ([Merged True, Merged True, Merged True],
                \<lparr>parent = [0, 0, 0, 2], rank = [2, 0, 1, 0], size_ds = [4, 1, 2, 1]\<rparr>))
   \<and> (3::nat) < 4
   \<and> find_ds \<lparr>parent = [0, 0, 0, 2], rank = [2, 0, 1, 0], size_ds = [4, 1, 2, 1]\<rparr> 3 =
       Some (Inr (0, \<lparr>parent = [0, 0, 0, 0], rank = [2, 0, 1, 0], size_ds = [4, 1, 2, 1]\<rparr>))
   \<and> (\<exists>ds2. find_ds \<lparr>parent = [0, 0, 0, 0], rank = [2, 0, 1, 0], size_ds = [4, 1, 2, 1]\<rparr> 3 =
       Some (Inr (0, ds2)))"
proof -
  have r: "run (DisjointSet 4) [Union 0 1, Union 2 3, Union 0 2] =
     Some (Inr ([Merged True, Merged True, Merged True],
                \<lparr>parent = [0, 0, 0, 2], rank = [2, 0, 1, 0], size_ds = [4, 1, 2, 1]\<rparr>))"
    by code_simp
  have f: "find_ds \<lparr>parent = [0, 0, 0, 2], rank = [2, 0, 1, 0], size_ds = [4, 1, 2, 1]\<rparr> 3 =
       Some (Inr (0, \<lparr>parent = [0, 0, 0, 0], rank = [2, 0, 1, 0], size_ds = [4, 1, 2, 1]\<rparr>))"
    by code_simp
  from find_ds_idempotent[OF r, of 3] f r show ?thesis by auto
qed

section \<open>The point set loader\<close>


lemma map_result_Inr:
  "map_result f xs = Inr ys \<longleftrightarrow> list_all2 (\<lambda>x y. f x = Inr y) xs ys"
proof (induction xs arbitrary: ys)
  case Nil
  then show ?case by auto
next
  case (Cons x xs)
  show ?case
  proof (cases "f x")
    case (Inl e)
    then show ?thesis by (auto simp: list_all2_Cons1)
  next
    case (Inr y)
    then show ?thesis using Cons.IH
      by (cases "map_result f xs") (auto simp: list_all2_Cons1)
  qed
qed

lemma map_result_Inl:
  "(\<exists>e. map_result f xs = Inl e) \<longleftrightarrow> (\<exists>x\<in>set xs. \<exists>e. f x = Inl e)"
proof (induction xs)
  case Nil
  then show ?case by simp
next
  case (Cons x xs)
  then show ?case
    by (cases "f x"; cases "map_result f xs") auto
qed

lemma map_result_Inl_only:
  assumes "\<And>x e. f x = Inl e \<Longrightarrow> e = err"
  shows "map_result f xs = Inl e \<Longrightarrow> e = err"
proof (induction xs)
  case Nil
  then show ?case by simp
next
  case (Cons x xs)
  show ?case
  proof (cases "f x")
    case (Inl e')
    with Cons.prems have "e = e'" by simp
    with Inl assms show ?thesis by blast
  next
    case (Inr y)
    with Cons.prems have "map_result f xs = Inl e"
      by (cases "map_result f xs") auto
    then show ?thesis by (rule Cons.IH)
  qed
qed

lemma py_int_error: "py_int s = Inl e \<Longrightarrow> e = ValueError"
  by (auto simp: py_int_def Let_def split: option.splits if_splits)

text \<open>
  The part of the loader's contract that the code keeps: if some field of some line is not
  an integer, \<^verbatim>\<open>parse_coordinates\<close> raises ValueError and returns nothing; otherwise
  it returns one tuple per line, holding the integers of that line's fields.
\<close>
lemma parse_coordinates_value_error:
  "(if \<exists>line\<in>set (splitlines data). \<exists>tok\<in>set (split_on CHR '','' line).
         py_int tok = Inl ValueError
    then parse_coordinates data = Inl ValueError
    else \<exists>coordinates. parse_coordinates data = Inr coordinates \<and>
           list_all2 (\<lambda>line p. list_all2 (\<lambda>tok v. py_int tok = Inr v) (split_on CHR '','' line) p)
             (splitlines data) coordinates)"
proof -
  let ?g = "\<lambda>line. map_result py_int (split_on CHR '','' line)"
  have g_err: "?g line = Inl e \<Longrightarrow> e = ValueError" for line e
    using map_result_Inl_only[of py_int ValueError] py_int_error by blast
  have p_err: "parse_coordinates data = Inl e \<Longrightarrow> e = ValueError" for e
    unfolding parse_coordinates_def using map_result_Inl_only[of ?g ValueError] g_err by blast
  have bad: "(\<exists>e. parse_coordinates data = Inl e) \<longleftrightarrow>
      (\<exists>line\<in>set (splitlines data). \<exists>tok\<in>set (split_on CHR '','' line). py_int tok = Inl ValueError)"
  proof -
    have "(\<exists>e. parse_coordinates data = Inl e) \<longleftrightarrow> (\<exists>line\<in>set (splitlines data). \<exists>e. ?g line = Inl e)"
      unfolding parse_coordinates_def by (rule map_result_Inl)
    also have "\<dots> \<longleftrightarrow> (\<exists>line\<in>set (splitlines data). \<exists>tok\<in>set (split_on CHR '','' line). \<exists>e. py_int tok = Inl e)"
      by (simp add: map_result_Inl)
    also have "\<dots> \<longleftrightarrow> (\<exists>line\<in>set (splitlines data). \<exists>tok\<in>set (split_on CHR '','' line). py_int tok = Inl ValueError)"
      using py_int_error by blast
    finally show ?thesis .
  qed
  show ?thesis
  proof (cases "parse_coordinates data")
    case (Inl e)
    with p_err have "parse_coordinates data = Inl ValueError" by simp
    moreover from Inl bad have "\<exists>line\<in>set (splitlines data). \<exists>tok\<in>set (split_on CHR '','' line).
         py_int tok = Inl ValueError" by blast
    ultimately show ?thesis by simp
  next
    case (Inr coordinates)
    with bad have nb: "\<not> (\<exists>line\<in>set (splitlines data). \<exists>tok\<in>set (split_on CHR '','' line).
         py_int tok = Inl ValueError)" by auto
    from Inr have "list_all2 (\<lambda>line p. ?g line = Inr p) (splitlines data) coordinates"
      by (simp add: parse_coordinates_def map_result_Inr)
    then have "list_all2 (\<lambda>line p. list_all2 (\<lambda>tok v. py_int tok = Inr v) (split_on CHR '','' line) p)
             (splitlines data) coordinates"
      by (simp add: map_result_Inr)
    with Inr nb show ?thesis by auto
  qed
qed

text \<open>
  Property C6 (\<^verbatim>\<open>parse_coordinates\<close>, field count). Evaluation of the loader on lines
  whose field count is not three: the line \<^verbatim>\<open>1,2\<close> is returned as the tuple
  \<open>(1, 2)\<close>, and lines of four fields and of one field are returned as tuples of four
  entries and of one. No exception is raised, against the annotation
  \<^verbatim>\<open>list[tuple[int, int, int]]\<close> and the docstring of the function, and
  \<^verbatim>\<open>part2\<close> computes an answer from two lines of four fields.
\<close>
theorem parse_coordinates_accepts_wrong_field_count:
  "parse_coordinates ''1,2'' = Inr [[1, 2]] \<and>
   parse_coordinates ''1,2,3,4\<newline>5'' = Inr [[1, 2, 3, 4], [5]] \<and>
   part2 exact_key ''1,2,3,4\<newline>5,6,7,8'' = Some (Inr 5)"
  by code_simp

section \<open>The distance ranking\<close>


lemma set_index_pairs: "set (index_pairs n) = {(i, j). i < j \<and> j < n}"
proof -
  have "(a, b) \<in> set (index_pairs n) \<longleftrightarrow> a < b \<and> b < n" for a b
  proof
    assume "(a, b) \<in> set (index_pairs n)"
    then show "a < b \<and> b < n" by (auto simp: index_pairs_def)
  next
    assume h: "a < b \<and> b < n"
    then have "a \<in> set [0..<n]" "(a, b) \<in> set (map (\<lambda>j. (a, j)) [a + 1..<n])" by auto
    then show "(a, b) \<in> set (index_pairs n)" unfolding index_pairs_def set_concat by auto
  qed
  then show ?thesis by auto
qed

lemma distinct_pair_rows:
  "distinct rows \<Longrightarrow> (\<And>i. distinct (cols i)) \<Longrightarrow>
   distinct (concat (map (\<lambda>i. map (\<lambda>j. (i, j)) (cols i)) rows))"
proof (induction rows)
  case Nil
  then show ?case by simp
next
  case (Cons i rows)
  have "distinct (map (\<lambda>j. (i, j)) (cols i))"
    using Cons.prems(2) by (simp add: distinct_map inj_on_def)
  moreover have "distinct (concat (map (\<lambda>i. map (\<lambda>j. (i, j)) (cols i)) rows))"
    using Cons by simp
  moreover have "set (map (\<lambda>j. (i, j)) (cols i)) \<inter>
                 set (concat (map (\<lambda>i. map (\<lambda>j. (i, j)) (cols i)) rows)) = {}"
    using Cons.prems(1) by auto
  ultimately show ?case by simp
qed

lemma distinct_index_pairs: "distinct (index_pairs n)"
  unfolding index_pairs_def by (rule distinct_pair_rows) simp_all

lemma pairwise_distances_Inr:
  assumes "pairwise_distances pow_half coordinates = Inr ds"
  shows "map snd ds = index_pairs (length coordinates)"
    and "\<And>d i j. (d, i, j) \<in> set ds \<longleftrightarrow>
           (i, j) \<in> set (index_pairs (length coordinates)) \<and>
           euclidean_distance pow_half (coordinates ! i) (coordinates ! j) = Inr d"
proof -
  let ?f = "\<lambda>(i, j). case euclidean_distance pow_half (coordinates ! i) (coordinates ! j) of
                   Inl e \<Rightarrow> Inl e
                 | Inr dist \<Rightarrow> Inr (dist, i, j)"
  let ?R = "\<lambda>p y. ?f p = Inr y"
  have R: "?R (i, j) (d, i', j') \<longleftrightarrow>
        i' = i \<and> j' = j \<and> euclidean_distance pow_half (coordinates ! i) (coordinates ! j) = Inr d"
    for i j d i' j'
    by (auto split: sum.splits)
  have la: "list_all2 ?R (index_pairs (length coordinates)) ds"
    using assms by (simp add: pairwise_distances_def map_result_Inr)
  have len: "length ds = length (index_pairs (length coordinates))"
    using la by (simp add: list_all2_lengthD)
  have nth: "?R (index_pairs (length coordinates) ! k) (ds ! k)" if "k < length ds" for k
    using list_all2_nthD2[OF la that] .
  show "map snd ds = index_pairs (length coordinates)"
  proof (rule nth_equalityI)
    show "length (map snd ds) = length (index_pairs (length coordinates))" using len by simp
    fix k assume "k < length (map snd ds)"
    then have k: "k < length ds" by simp
    obtain i j where p: "index_pairs (length coordinates) ! k = (i, j)" by (cases "index_pairs (length coordinates) ! k")
    obtain d i' j' where q: "ds ! k = (d, i', j')" by (cases "ds ! k") auto
    from nth[OF k] p q R have "i' = i \<and> j' = j" by simp
    with k p q show "map snd ds ! k = index_pairs (length coordinates) ! k" by simp
  qed
  fix d i j
  show "(d, i, j) \<in> set ds \<longleftrightarrow>
           (i, j) \<in> set (index_pairs (length coordinates)) \<and>
           euclidean_distance pow_half (coordinates ! i) (coordinates ! j) = Inr d"
  proof
    assume "(d, i, j) \<in> set ds"
    then obtain k where k: "k < length ds" "ds ! k = (d, i, j)" by (auto simp: in_set_conv_nth)
    obtain i0 j0 where p: "index_pairs (length coordinates) ! k = (i0, j0)"
      by (cases "index_pairs (length coordinates) ! k")
    from nth[OF k(1)] p k(2) R have e: "i = i0 \<and> j = j0 \<and>
        euclidean_distance pow_half (coordinates ! i0) (coordinates ! j0) = Inr d" by simp
    moreover have "(i0, j0) \<in> set (index_pairs (length coordinates))"
      using p k(1) len by (metis nth_mem)
    ultimately show "(i, j) \<in> set (index_pairs (length coordinates)) \<and>
           euclidean_distance pow_half (coordinates ! i) (coordinates ! j) = Inr d" by simp
  next
    assume a: "(i, j) \<in> set (index_pairs (length coordinates)) \<and>
           euclidean_distance pow_half (coordinates ! i) (coordinates ! j) = Inr d"
    then obtain k where k: "k < length ds" "index_pairs (length coordinates) ! k = (i, j)"
      using len by (auto simp: in_set_conv_nth)
    obtain d' i' j' where q: "ds ! k = (d', i', j')" by (cases "ds ! k") auto
    from nth[OF k(1)] k(2) q R have "i' = i \<and> j' = j \<and>
        euclidean_distance pow_half (coordinates ! i) (coordinates ! j) = Inr d'" by simp
    with a have "ds ! k = (d, i, j)" using q by simp
    with k(1) show "(d, i, j) \<in> set ds" by (metis nth_mem)
  qed
qed

lemma ranking_Inr:
  assumes "ranking pow_half coordinates = Inr edges"
  shows "sorted edges" and "distinct edges"
    and "\<And>d i j. (d, i, j) \<in> set edges \<longleftrightarrow>
           i < j \<and> j < length coordinates \<and>
           euclidean_distance pow_half (coordinates ! i) (coordinates ! j) = Inr d"
    and "length edges = length (index_pairs (length coordinates))"
proof -
  from assms obtain ds where ds: "pairwise_distances pow_half coordinates = Inr ds"
    and e: "edges = sort ds"
    by (auto simp: ranking_def split: sum.splits)
  show "sorted edges" using e by simp
  have "distinct (map snd ds)"
    using pairwise_distances_Inr(1)[OF ds] distinct_index_pairs by simp
  then have "distinct ds" by (simp add: distinct_map)
  then show "distinct edges" using e by simp
  show "\<And>d i j. (d, i, j) \<in> set edges \<longleftrightarrow>
           i < j \<and> j < length coordinates \<and>
           euclidean_distance pow_half (coordinates ! i) (coordinates ! j) = Inr d"
    using pairwise_distances_Inr(2)[OF ds] e by (simp add: set_index_pairs)
  have "length ds = length (map snd ds)" by simp
  then show "length edges = length (index_pairs (length coordinates))"
    using pairwise_distances_Inr(1)[OF ds] e by simp
qed

text \<open>
  Property C5 (distance ranking). When the distances compute, the ranked list holds, for
  every pair \<open>i < j\<close> of point indices, exactly one triple \<open>(d, i, j)\<close>, with \<open>d\<close> the
  distance \<^verbatim>\<open>euclidean_distance\<close> returns for the two points, and nothing else; and
  of two triples the earlier one has the smaller distance or, at equal distance, the
  pair that comes first in the enumeration order (\<open>i\<close> ascending, then \<open>j\<close>). The
  ranking is a function of the point sequence, so the same points give the same list.
\<close>
theorem ranking_sorted_by_distance:
  assumes "ranking pow_half coordinates = Inr edges"
  shows "(\<forall>d i j. (d, i, j) \<in> set edges \<longleftrightarrow>
            i < j \<and> j < length coordinates \<and>
            euclidean_distance pow_half (coordinates ! i) (coordinates ! j) = Inr d)
       \<and> distinct edges
       \<and> (\<forall>a b. a < b \<and> b < length edges \<longrightarrow>
            (case (edges ! a, edges ! b) of
               ((d, i, j), (d', i', j')) \<Rightarrow>
                 d < d' \<or> (d = d' \<and> (i < i' \<or> (i = i' \<and> j < j')))))"
proof -
  note r = ranking_Inr[OF assms]
  have "sorted_wrt (<) edges" using r(1,2) by (simp add: strict_sorted_iff)
  then have lt: "edges ! a < edges ! b" if "a < b" "b < length edges" for a b
    using that by (simp add: sorted_wrt_iff_nth_less)
  have "case (edges ! a, edges ! b) of
               ((d, i, j), (d', i', j')) \<Rightarrow>
                 d < d' \<or> (d = d' \<and> (i < i' \<or> (i = i' \<and> j < j')))"
    if "a < b \<and> b < length edges" for a b
  proof -
    obtain d i j where ea: "edges ! a = (d, i, j)" by (cases "edges ! a") auto
    obtain d' i' j' where eb: "edges ! b = (d', i', j')" by (cases "edges ! b") auto
    from lt[of a b] that ea eb have "(d, i, j) < (d', i', j')" by simp
    then have "d < d' \<or> (d = d' \<and> (i < i' \<or> (i = i' \<and> j < j')))"
      by (auto simp: less_prod_def')
    with ea eb show ?thesis by simp
  qed
  with r(2,3) show ?thesis by blast
qed

theorem ranking_sorted_by_distance_witness:
  "ranking exact_key [[0, 0, 0], [1, 0, 0], [1, 0, 0], [0, 0, 0]] =
     Inr [(0, 0, 3), (0, 1, 2), (1, 0, 1), (1, 0, 2), (1, 1, 3), (1, 2, 3)]
   \<and> distinct [(0::int, 0::nat, 3::nat), (0, 1, 2), (1, 0, 1), (1, 0, 2), (1, 1, 3), (1, 2, 3)]
   \<and> (case ([(0::int, 0::nat, 3::nat), (0, 1, 2), (1, 0, 1), (1, 0, 2), (1, 1, 3), (1, 2, 3)] ! 0,
             [(0::int, 0::nat, 3::nat), (0, 1, 2), (1, 0, 1), (1, 0, 2), (1, 1, 3), (1, 2, 3)] ! 1) of
         ((d, i, j), (d', i', j')) \<Rightarrow> d < d' \<or> (d = d' \<and> (i < i' \<or> (i = i' \<and> j < j'))))"
proof -
  let ?E = "[(0::int, 0::nat, 3::nat), (0, 1, 2), (1, 0, 1), (1, 0, 2), (1, 1, 3), (1, 2, 3)]"
  have r: "ranking exact_key [[0, 0, 0], [1, 0, 0], [1, 0, 0], [0, 0, 0]] = Inr ?E"
    by code_simp
  note t = ranking_sorted_by_distance[OF r]
  have d: "distinct ?E" using t by (elim conjE)
  have "\<forall>a b. a < b \<and> b < length ?E \<longrightarrow>
            (case (?E ! a, ?E ! b) of
               ((d, i, j), (d', i', j')) \<Rightarrow>
                 d < d' \<or> (d = d' \<and> (i < i' \<or> (i = i' \<and> j < j'))))"
    using t by (elim conjE)
  then have "(0::nat) < 1 \<and> 1 < length ?E \<longrightarrow>
            (case (?E ! 0, ?E ! 1) of
               ((d, i, j), (d', i', j')) \<Rightarrow>
                 d < d' \<or> (d = d' \<and> (i < i' \<or> (i = i' \<and> j < j'))))"
    by (elim allE)
  moreover have "(0::nat) < 1 \<and> 1 < length ?E" by simp
  ultimately have "case (?E ! 0, ?E ! 1) of
               ((d, i, j), (d', i', j')) \<Rightarrow>
                 d < d' \<or> (d = d' \<and> (i < i' \<or> (i = i' \<and> j < j')))"
    by (rule mp)
  with r d show ?thesis by (intro conjI)
qed

section \<open>Stepping the drivers\<close>


lemma ranking_edges_ok:
  assumes "ranking pow_half coordinates = Inr edges"
  shows "\<forall>e\<in>set edges. op_ok (length coordinates) (edge_union e)"
proof
  fix e assume e: "e \<in> set edges"
  obtain d i j where "e = (d, i, j)" by (cases e) auto
  with e ranking_Inr(3)[OF assms, of d i j] show "op_ok (length coordinates) (edge_union e)"
    by (simp add: edge_union_def)
qed

lemma run_single_union:
  "union_ds ds x y = Some (Inr (b, ds')) \<Longrightarrow> run ds [Union x y] = Some (Inr ([Merged b], ds'))"
  by simp

lemma connect_attempts_run:
  "invar n ds \<Longrightarrow> a < K \<Longrightarrow> \<forall>e\<in>set es. op_ok n (edge_union e) \<Longrightarrow>
   \<exists>rs ds'. run ds (map edge_union (take (K - a) es)) = Some (Inr (rs, ds'))
      \<and> connect_attempts K ds a es = Some (Inr ds') \<and> invar n ds'"
proof (induction es arbitrary: ds a)
  case Nil
  then show ?case by simp
next
  case (Cons e es)
  obtain d x y where e: "e = (d, x, y)" by (cases e) auto
  with Cons.prems(3) have xy: "x < n" "y < n" by (simp_all add: edge_union_def)
  from union_ds_post[OF Cons.prems(1) xy] obtain b ds1 where
    u: "union_ds ds x y = Some (Inr (b, ds1))" and i1: "invar n ds1" by blast
  from Cons.prems(2) obtain m where m: "K - a = Suc m" by (cases "K - a") auto
  have eu: "edge_union e = Union x y" using e by (simp add: edge_union_def)
  show ?case
  proof (cases "a + 1 = K")
    case True
    then have "m = 0" using m by simp
    then have "run ds (map edge_union (take (K - a) (e # es))) = Some (Inr ([Merged b], ds1))"
      using m eu u by simp
    moreover have "connect_attempts K ds a (e # es) = Some (Inr ds1)"
      using e u True by simp
    ultimately show ?thesis using i1 by blast
  next
    case False
    then have a': "a + 1 < K" using Cons.prems(2) by simp
    have m': "K - (a + 1) = m" using m by simp
    from Cons.IH[OF i1 a'] Cons.prems(3) obtain rs ds' where
      r: "run ds1 (map edge_union (take m es)) = Some (Inr (rs, ds'))"
      and c: "connect_attempts K ds1 (a + 1) es = Some (Inr ds')" and i': "invar n ds'"
      using m' by auto
    have "run ds (map edge_union (take (K - a) (e # es))) = Some (Inr (Merged b # rs, ds'))"
      using m eu u r by simp
    moreover have "connect_attempts K ds a (e # es) = Some (Inr ds')"
      using e u False c by simp
    ultimately show ?thesis using i' by blast
  qed
qed

lemma circuit_sizes_roots:
  "invar n ds \<Longrightarrow> \<forall>i\<in>set is. i < n \<Longrightarrow>
   \<exists>ds'. circuit_sizes ds is =
      Some (Inr (map (\<lambda>r. size_ds ds ! r) (filter (\<lambda>i. parent ds ! i = i) is), ds'))"
proof (induction "is" arbitrary: ds)
  case Nil
  then show ?case by simp
next
  case (Cons i "is")
  then have i: "i < n" by simp
  from invar_find[OF Cons.prems(1) i] obtain r ds1 where
    f: "find_ds ds i = Some (Inr (r, ds1))" and r: "root_of (parent ds) i r"
    and i1: "invar n ds1" and sz: "size_ds ds1 = size_ds ds"
    and ro: "\<forall>i s. root_of (parent ds1) i s \<longleftrightarrow> root_of (parent ds) i s" by blast
  have len: "length (parent ds) = n" "length (parent ds1) = n" "length (size_ds ds1) = n"
    using Cons.prems(1) i1 by (auto simp: invar_def)
  have ri: "r = i \<longleftrightarrow> parent ds ! i = i"
    using r root_of_bounds[OF r] root_of_at_root[of i "parent ds" r] i len by auto
  have same: "(parent ds1 ! j = j) = (parent ds ! j = j)" if "j < n" for j
    using that ro len by (simp add: is_root_iff)
  have flt: "filter (\<lambda>i. parent ds1 ! i = i) is = filter (\<lambda>i. parent ds ! i = i) is"
    using Cons.prems(2) same by (intro filter_cong) auto
  from Cons.IH[OF i1] Cons.prems(2) obtain ds' where
    c: "circuit_sizes ds1 is =
      Some (Inr (map (\<lambda>r. size_ds ds ! r) (filter (\<lambda>i. parent ds ! i = i) is), ds'))"
    using sz flt by auto
  show ?case using f c ri i len sz by (cases "r = i") auto
qed

lemma circuit_sizes_all:
  assumes "invar n ds"
  shows "\<exists>ds'. circuit_sizes ds [0..<n] = Some (Inr (map (\<lambda>r. size_ds ds ! r) (roots ds), ds'))"
proof -
  have "length (parent ds) = n" using assms by (simp add: invar_def)
  then show ?thesis using circuit_sizes_roots[OF assms, of "[0..<n]"] by (simp add: roots_def)
qed

lemma distinct_all_equal:
  assumes d: "distinct xs" and e: "\<forall>a\<in>set xs. \<forall>b\<in>set xs. a = b"
  shows "length xs \<le> 1"
proof (cases xs)
  case Nil
  then show ?thesis by simp
next
  case (Cons a ys)
  have "ys = []"
  proof (cases ys)
    case Nil
    then show ?thesis .
  next
    case (Cons b zs)
    have "a \<in> set xs" "b \<in> set xs" using \<open>xs = a # ys\<close> Cons by simp_all
    with e have "a = b" by blast
    moreover have "a \<noteq> b" using d \<open>xs = a # ys\<close> Cons by simp
    ultimately show ?thesis by simp
  qed
  with Cons show ?thesis by simp
qed

lemma all_connected_roots:
  assumes inv: "invar n ds" and c: "\<forall>i j. i < j \<and> j < n \<longrightarrow> same_comp (parent ds) i j"
  shows "length (roots ds) \<le> 1"
proof (rule distinct_all_equal)
  show "distinct (roots ds)" by (simp add: roots_def)
  have len: "length (parent ds) = n" using inv by (simp add: invar_def)
  have eq: "a = b" if a: "a < n" "parent ds ! a = a" and b: "b < n" "parent ds ! b = b" and ab: "a < b"
    for a b
  proof -
    from c a b ab obtain r where "root_of (parent ds) a r" "root_of (parent ds) b r"
      by (auto simp: same_comp_def)
    then show ?thesis using root_of_at_root[of a "parent ds"] root_of_at_root[of b "parent ds"] a b len
      by simp
  qed
  show "\<forall>a\<in>set (roots ds). \<forall>b\<in>set (roots ds). a = b"
  proof (intro ballI)
    fix a b assume "a \<in> set (roots ds)" "b \<in> set (roots ds)"
    then have a: "a < n" "parent ds ! a = a" and b: "b < n" "parent ds ! b = b"
      using len by (auto simp: roots_def)
    show "a = b"
    proof (cases a b rule: linorder_cases)
      case less
      then show ?thesis using eq[OF a b] by simp
    next
      case equal
      then show ?thesis .
    next
      case greater
      then show ?thesis using eq[OF b a] by simp
    qed
  qed
qed

lemma roots_nonempty:
  assumes "invar n ds" "0 < n"
  shows "1 \<le> length (roots ds)"
proof -
  from assms obtain r where r: "root_of (parent ds) 0 r" by (auto simp: invar_def)
  from root_of_bounds[OF r] have "r \<in> set (roots ds)" by (simp add: roots_def)
  then show ?thesis by (cases "roots ds") auto
qed

lemma run_all_edges_connected:
  assumes r: "ranking pow_half coordinates = Inr edges"
  shows "\<exists>rs ds. run (DisjointSet (length coordinates)) (map edge_union edges) = Some (Inr (rs, ds))
      \<and> invar (length coordinates) ds \<and> length (roots ds) \<le> 1"
proof -
  let ?n = "length coordinates"
  have ok: "\<forall>p\<in>set (map edge_union edges). op_ok ?n p"
    using ranking_edges_ok[OF r] by simp
  from run_invar[OF invar_init ok] obtain rs ds where
    run: "run (DisjointSet ?n) (map edge_union edges) = Some (Inr (rs, ds))"
    and inv: "invar ?n ds"
    and un: "\<forall>x y. Union x y \<in> set (map edge_union edges) \<longrightarrow> same_comp (parent ds) x y"
    by blast
  have "same_comp (parent ds) i j" if "i < j \<and> j < ?n" for i j
  proof -
    have len: "length (parent ds) = ?n" using inv by (simp add: invar_def)
    have "i < ?n" "j < ?n" using that by auto
    show ?thesis
    proof (cases "euclidean_distance pow_half (coordinates ! i) (coordinates ! j)")
      case (Inl e)
      from r obtain ds0 where ds0: "pairwise_distances pow_half coordinates = Inr ds0"
        by (auto simp: ranking_def split: sum.splits)
      have "(i, j) \<in> set (index_pairs ?n)" using that by (simp add: set_index_pairs)
      then have "(i, j) \<in> set (map snd ds0)" using pairwise_distances_Inr(1)[OF ds0] by simp
      then obtain d where "(d, i, j) \<in> set ds0" by auto
      with pairwise_distances_Inr(2)[OF ds0] Inl show ?thesis by simp
    next
      case (Inr d)
      with that ranking_Inr(3)[OF r, of d i j] have "(d, i, j) \<in> set edges" by simp
      then have "edge_union (d, i, j) \<in> set (map edge_union edges)" by simp
      then have "Union i j \<in> set (map edge_union edges)" by (simp add: edge_union_def)
      with un show ?thesis by blast
    qed
  qed
  then have "length (roots ds) \<le> 1" using all_connected_roots[OF inv] by blast
  with run inv show ?thesis by blast
qed

section \<open>The two query modes\<close>


lemma part1_after_attempts:
  assumes p: "parse_coordinates data = Inr coordinates"
    and r: "ranking pow_half coordinates = Inr edges"
    and K: "0 < K"
  shows "\<exists>rs ds. run (DisjointSet (length coordinates)) (map edge_union (take K edges))
               = Some (Inr (rs, ds))
      \<and> length rs = min (length edges) K
      \<and> invar (length coordinates) ds
      \<and> part1_limit K pow_half data =
          (let s = rev (sort (map (\<lambda>r. size_ds ds ! r) (roots ds)))
           in if length (roots ds) < 3 then Some (Inl IndexError)
              else Some (Inr (s ! 0 * s ! 1 * s ! 2)))"
proof -
  let ?n = "length coordinates"
  have ok: "\<forall>e\<in>set edges. op_ok ?n (edge_union e)" by (rule ranking_edges_ok[OF r])
  from connect_attempts_run[OF invar_init K ok] obtain rs ds where
    run: "run (DisjointSet ?n) (map edge_union (take K edges)) = Some (Inr (rs, ds))"
    and c: "connect_attempts K (DisjointSet ?n) 0 edges = Some (Inr ds)"
    and inv: "invar ?n ds" by auto
  have "\<forall>p\<in>set (map edge_union (take K edges)). op_ok ?n p"
    using ok by (auto dest: in_set_takeD)
  from run_invar[OF invar_init this] run have len: "length rs = min (length edges) K"
    by auto
  from circuit_sizes_all[OF inv] obtain ds' where
    cs: "circuit_sizes ds [0..<?n] = Some (Inr (map (\<lambda>r. size_ds ds ! r) (roots ds), ds'))"
    by blast
  have "part1_limit K pow_half data =
          (let s = rev (sort (map (\<lambda>r. size_ds ds ! r) (roots ds)))
           in if length (roots ds) < 3 then Some (Inl IndexError)
              else Some (Inr (s ! 0 * s ! 1 * s ! 2)))"
    unfolding part1_limit_def using p r c cs by (simp add: Let_def)
  with run len inv show ?thesis by blast
qed

text \<open>
  Property C1 (Mode A, \<^verbatim>\<open>part1\<close>). Let the input parse and its distances compute, let
  \<open>K\<close> be a positive threshold and let there be at least \<open>K\<close> ranked edges. Then the
  partition the driver ends with is the one reached from a fresh \<open>DisjointSet\<close> by calling
  \<^verbatim>\<open>union\<close> on the first \<open>K\<close> ranked edges, in ranked order: exactly \<open>K\<close> calls, the
  \<open>K\<close>-th edge included, whether or not a call merges anything (the trace \<open>rs\<close> records
  each result). If that partition has at least three roots, the result is the product of
  the three largest sizes recorded at its roots. \<^verbatim>\<open>part1\<close> is the case \<open>K = 1000\<close>.
\<close>
theorem part1_first_K_attempts:
  assumes "parse_coordinates data = Inr coordinates"
    and "ranking pow_half coordinates = Inr edges"
    and "0 < K" and "K \<le> length edges"
  shows "\<exists>rs ds. run (DisjointSet (length coordinates)) (map edge_union (take K edges))
               = Some (Inr (rs, ds))
      \<and> length rs = K
      \<and> (3 \<le> length (roots ds) \<longrightarrow>
           part1_limit K pow_half data =
             Some (Inr (let s = rev (sort (map (\<lambda>r. size_ds ds ! r) (roots ds)))
                        in s ! 0 * s ! 1 * s ! 2)))
      \<and> part1 pow_half data = part1_limit 1000 pow_half data"
proof -
  from part1_after_attempts[OF assms(1,2,3)] obtain rs ds where
    run: "run (DisjointSet (length coordinates)) (map edge_union (take K edges))
               = Some (Inr (rs, ds))"
    and len: "length rs = min (length edges) K"
    and p1: "part1_limit K pow_half data =
          (let s = rev (sort (map (\<lambda>r. size_ds ds ! r) (roots ds)))
           in if length (roots ds) < 3 then Some (Inl IndexError)
              else Some (Inr (s ! 0 * s ! 1 * s ! 2)))"
    by blast
  have "length rs = K" using len assms(4) by simp
  moreover have "3 \<le> length (roots ds) \<longrightarrow>
           part1_limit K pow_half data =
             Some (Inr (let s = rev (sort (map (\<lambda>r. size_ds ds ! r) (roots ds)))
                        in s ! 0 * s ! 1 * s ! 2))"
    using p1 by (simp add: Let_def)
  ultimately show ?thesis using run by (auto simp: part1_def)
qed

theorem part1_first_K_attempts_witness:
  "parse_coordinates ''0,0,0\<newline>1,0,0\<newline>3,0,0\<newline>6,0,0\<newline>10,0,0'' =
     Inr [[0, 0, 0], [1, 0, 0], [3, 0, 0], [6, 0, 0], [10, 0, 0]]
   \<and> ranking exact_key [[0, 0, 0], [1, 0, 0], [3, 0, 0], [6, 0, 0], [10, 0, 0]] =
     Inr [(1, 0, 1), (4, 1, 2), (9, 0, 2), (9, 2, 3), (16, 3, 4), (25, 1, 3),
          (36, 0, 3), (49, 2, 4), (81, 1, 4), (100, 0, 4)]
   \<and> (0::nat) < 1
   \<and> 1 \<le> length [(1::int, 0::nat, 1::nat), (4, 1, 2), (9, 0, 2), (9, 2, 3), (16, 3, 4), (25, 1, 3),
          (36, 0, 3), (49, 2, 4), (81, 1, 4), (100, 0, 4)]
   \<and> run (DisjointSet 5) (map edge_union (take 1 [(1::int, 0::nat, 1::nat), (4, 1, 2), (9, 0, 2),
          (9, 2, 3), (16, 3, 4), (25, 1, 3), (36, 0, 3), (49, 2, 4), (81, 1, 4), (100, 0, 4)])) =
     Some (Inr ([Merged True],
                \<lparr>parent = [0, 0, 2, 3, 4], rank = [1, 0, 0, 0, 0], size_ds = [2, 1, 1, 1, 1]\<rparr>))
   \<and> 3 \<le> length (roots \<lparr>parent = [0, 0, 2, 3, 4], rank = [1, 0, 0, 0, 0],
                            size_ds = [2, 1, 1, 1, 1]\<rparr>)
   \<and> part1_limit 1 exact_key ''0,0,0\<newline>1,0,0\<newline>3,0,0\<newline>6,0,0\<newline>10,0,0'' =
       Some (Inr 2)"
proof -
  let ?D = "''0,0,0\<newline>1,0,0\<newline>3,0,0\<newline>6,0,0\<newline>10,0,0''"
  let ?C = "[[0, 0, 0], [1, 0, 0], [3, 0, 0], [6, 0, 0], [10::int, 0, 0]]"
  let ?E = "[(1::int, 0::nat, 1::nat), (4, 1, 2), (9, 0, 2), (9, 2, 3), (16, 3, 4), (25, 1, 3),
          (36, 0, 3), (49, 2, 4), (81, 1, 4), (100, 0, 4)]"
  let ?ds = "\<lparr>parent = [0, 0, 2, 3, 4], rank = [1, 0, 0, 0, 0], size_ds = [2, 1, 1, 1, 1]\<rparr>"
  have p: "parse_coordinates ?D = Inr ?C" by code_simp
  have r: "ranking exact_key ?C = Inr ?E" by code_simp
  have k0: "(0::nat) < 1" by simp
  have k1: "1 \<le> length ?E" by simp
  have len: "length ?C = 5" by simp
  have run: "run (DisjointSet 5) (map edge_union (take 1 ?E)) = Some (Inr ([Merged True], ?ds))"
    by code_simp
  have rt: "3 \<le> length (roots ?ds)" by code_simp
  have pr: "(let s = rev (sort (map (\<lambda>r. size_ds ?ds ! r) (roots ?ds)))
             in s ! 0 * s ! 1 * s ! 2) = 2"
    by code_simp
  from part1_first_K_attempts[OF p r k0 k1] obtain rs ds where
    a: "run (DisjointSet (length ?C)) (map edge_union (take 1 ?E)) = Some (Inr (rs, ds))"
    and b: "3 \<le> length (roots ds) \<longrightarrow>
           part1_limit 1 exact_key ?D =
             Some (Inr (let s = rev (sort (map (\<lambda>r. size_ds ds ! r) (roots ds)))
                        in s ! 0 * s ! 1 * s ! 2))"
    by blast
  from a have "run (DisjointSet 5) (map edge_union (take 1 ?E)) = Some (Inr (rs, ds))"
    unfolding len .
  with run have "ds = ?ds" by simp
  with b rt have "part1_limit 1 exact_key ?D =
             Some (Inr (let s = rev (sort (map (\<lambda>r. size_ds ?ds ! r) (roots ?ds)))
                        in s ! 0 * s ! 1 * s ! 2))"
    by blast
  then have v: "part1_limit 1 exact_key ?D = Some (Inr 2)" unfolding pr .
  from p r k0 k1 run rt v show ?thesis by (intro conjI)
qed

text \<open>
  Property C7 (Mode A, precondition violated). Let the input parse and its distances
  compute. If the threshold exceeds the number of ranked edges, or if fewer than three
  roots remain after the first \<open>K\<close> attempts, the driver returns no product: it raises
  IndexError, at the indexing of the sorted sizes in line 145. When there are fewer edges
  than the threshold every pair has been united, so at most one root is left.
\<close>
theorem part1_precondition_violation:
  assumes "parse_coordinates data = Inr coordinates"
    and "ranking pow_half coordinates = Inr edges"
    and "0 < K"
    and "length edges < K \<or>
         (\<exists>rs ds. run (DisjointSet (length coordinates)) (map edge_union (take K edges))
                    = Some (Inr (rs, ds)) \<and> length (roots ds) < 3)"
  shows "part1_limit K pow_half data = Some (Inl IndexError)
       \<and> part1 pow_half data = part1_limit 1000 pow_half data"
proof -
  from part1_after_attempts[OF assms(1,2,3)] obtain rs ds where
    run: "run (DisjointSet (length coordinates)) (map edge_union (take K edges))
               = Some (Inr (rs, ds))"
    and p1: "part1_limit K pow_half data =
          (let s = rev (sort (map (\<lambda>r. size_ds ds ! r) (roots ds)))
           in if length (roots ds) < 3 then Some (Inl IndexError)
              else Some (Inr (s ! 0 * s ! 1 * s ! 2)))"
    by blast
  have "length (roots ds) < 3"
  proof (cases "length edges < K")
    case True
    then have "take K edges = edges" by simp
    with run_all_edges_connected[OF assms(2)] run have "length (roots ds) \<le> 1" by auto
    then show ?thesis by simp
  next
    case False
    with assms(4) run show ?thesis by auto
  qed
  with p1 show ?thesis by (simp add: Let_def part1_def)
qed

theorem part1_precondition_violation_witness:
  "parse_coordinates ''0,0,0\<newline>1,0,0\<newline>3,0,0'' = Inr [[0, 0, 0], [1, 0, 0], [3, 0, 0]]
   \<and> ranking exact_key [[0, 0, 0], [1, 0, 0], [3, 0, 0]] = Inr [(1, 0, 1), (4, 1, 2), (9, 0, 2)]
   \<and> (0::nat) < 1000
   \<and> length [(1::int, 0::nat, 1::nat), (4, 1, 2), (9, 0, 2)] < 1000
   \<and> part1 exact_key ''0,0,0\<newline>1,0,0\<newline>3,0,0'' = Some (Inl IndexError)"
proof -
  have p: "parse_coordinates ''0,0,0\<newline>1,0,0\<newline>3,0,0'' = Inr [[0, 0, 0], [1, 0, 0], [3, 0, 0]]"
    by code_simp
  have r: "ranking exact_key [[0, 0, 0], [1, 0, 0], [3, 0, 0]] = Inr [(1, 0, 1), (4, 1, 2), (9, 0, 2)]"
    by code_simp
  have k: "(0::nat) < 1000" by simp
  have l: "length [(1::int, 0::nat, 1::nat), (4, 1, 2), (9, 0, 2)] < 1000" by simp
  from part1_precondition_violation[OF p r k disjI1[OF l]] p r k l show ?thesis by simp
qed

lemma ranking_tuples_nonempty:
  assumes r: "ranking pow_half coordinates = Inr edges" and n: "2 \<le> length coordinates"
  shows "\<forall>i<length coordinates. 3 \<le> length (coordinates ! i)"
proof (intro allI impI)
  fix i assume i: "i < length coordinates"
  from r obtain ds0 where ds0: "pairwise_distances pow_half coordinates = Inr ds0"
    by (auto simp: ranking_def split: sum.splits)
  obtain a b where ab: "a < b" "b < length coordinates" "i = a \<or> i = b"
  proof (cases "i = 0")
    case True
    then show ?thesis using n that[of 0 1] by auto
  next
    case False
    then show ?thesis using i that[of 0 i] by auto
  qed
  then have "(a, b) \<in> set (map snd ds0)"
    using pairwise_distances_Inr(1)[OF ds0] by (simp add: set_index_pairs)
  then obtain d where "(d, a, b) \<in> set ds0" by auto
  with pairwise_distances_Inr(2)[OF ds0] have
    "euclidean_distance pow_half (coordinates ! a) (coordinates ! b) = Inr d" by simp
  then have "3 \<le> length (coordinates ! a) \<and> 3 \<le> length (coordinates ! b)"
    by (auto simp: euclidean_distance_def split: if_splits)
  with ab(3) show "3 \<le> length (coordinates ! i)" by auto
qed

lemma connect_all_terminal:
  assumes "invar n ds" and "2 \<le> length (roots ds)"
    and "\<forall>e\<in>set es. op_ok n (edge_union e)"
    and "length coordinates = n" and "\<forall>i<n. coordinates ! i \<noteq> []"
    and "run ds (map edge_union es) = Some (Inr (rsF, dsF))" and "length (roots dsF) \<le> 1"
  shows "\<exists>k d a b rs dsk ds'. k < length es \<and> es ! k = (d, a, b)
      \<and> run ds (map edge_union (take k es)) = Some (Inr (rs, dsk))
      \<and> count_list rs (Merged True) + 2 = length (roots ds)
      \<and> union_ds dsk a b = Some (Inr (True, ds'))
      \<and> connect_all coordinates ds (int (length (roots ds))) es
          = Some (Inr (coordinates ! a ! 0 * coordinates ! b ! 0))"
  using assms
proof (induction es arbitrary: ds rsF)
  case Nil
  then show ?case by simp
next
  case (Cons e es)
  obtain d x y where e: "e = (d, x, y)" by (cases e) auto
  with Cons.prems(3) have xy: "x < n" "y < n" by (simp_all add: edge_union_def)
  have eu: "edge_union e = Union x y" using e by (simp add: edge_union_def)
  from union_ds_post[OF Cons.prems(1) xy] obtain b ds1 where
    u: "union_ds ds x y = Some (Inr (b, ds1))" and i1: "invar n ds1"
    and cnt: "length (roots ds1) + (if b then 1 else 0) = length (roots ds)" by blast
  show ?case
  proof (cases "b \<and> length (roots ds) = 2")
    case True
    have "connect_all coordinates ds (int (length (roots ds))) (e # es)
          = Some (Inr (coordinates ! x ! 0 * coordinates ! y ! 0))"
      using e u True xy Cons.prems(4,5) by simp
    moreover have "run ds (map edge_union (take 0 (e # es))) = Some (Inr ([], ds))" by simp
    moreover have "count_list [] (Merged True) + 2 = length (roots ds)" using True by simp
    ultimately show ?thesis using e u True
      by (intro exI[of _ 0] exI[of _ d] exI[of _ x] exI[of _ y] exI[of _ "[]"] exI[of _ ds] exI[of _ ds1]) simp
  next
    case False
    then have two: "2 \<le> length (roots ds1)" using cnt Cons.prems(2) by (auto split: if_splits)
    from Cons.prems(6) eu u obtain rs1 where
      r1: "run ds1 (map edge_union es) = Some (Inr (rs1, dsF))"
      by (auto split: option.splits sum.splits)
    from Cons.IH[OF i1 two _ Cons.prems(4,5) r1 Cons.prems(7)] Cons.prems(3)
    obtain k d' a' b' rs dsk ds' where
      k: "k < length es" "es ! k = (d', a', b')"
      and rk: "run ds1 (map edge_union (take k es)) = Some (Inr (rs, dsk))"
      and ck: "count_list rs (Merged True) + 2 = length (roots ds1)"
      and uk: "union_ds dsk a' b' = Some (Inr (True, ds'))"
      and ca: "connect_all coordinates ds1 (int (length (roots ds1))) es
          = Some (Inr (coordinates ! a' ! 0 * coordinates ! b' ! 0))"
      by auto
    have r': "run ds (map edge_union (take (Suc k) (e # es))) = Some (Inr (Merged b # rs, dsk))"
      using eu u rk by simp
    have c': "count_list (Merged b # rs) (Merged True) + 2 = length (roots ds)"
      using ck cnt by (auto split: if_splits)
    have "int (length (roots ds)) - 1 = int (length (roots ds1))" if "b"
      using that cnt by simp
    moreover have "int (length (roots ds1)) \<noteq> 1" using two by simp
    moreover have "length (roots ds) = length (roots ds1)" if "\<not> b"
      using that cnt by simp
    ultimately have ca': "connect_all coordinates ds (int (length (roots ds))) (e # es)
          = Some (Inr (coordinates ! a' ! 0 * coordinates ! b' ! 0))"
      using e u ca by (cases b) (simp_all add: Let_def)
    show ?thesis using k r' c' uk ca'
      by (intro exI[of _ "Suc k"] exI[of _ d'] exI[of _ a'] exI[of _ b'] exI[of _ "Merged b # rs"]
            exI[of _ dsk] exI[of _ ds']) simp
  qed
qed

text \<open>
  Property C2 (Mode B, \<^verbatim>\<open>part2\<close>), as amended. Let the input parse to at least two
  points and let every pairwise distance compute (every tuple has at least three entries
  and no sum of squares is too large for a double). Then there is a ranked edge
  \<open>(d, a, b)\<close>, at position \<open>k\<close>, such that after \<^verbatim>\<open>union\<close> on the \<open>k\<close> edges
  before it, in ranked order, the live-component counter (\<open>n\<close> minus the number of calls
  that returned true) is 2, \<^verbatim>\<open>union\<close> on \<open>(a, b)\<close> returns true, and the driver
  returns the product of the x-coordinates of points \<open>a\<close> and \<open>b\<close>. The counter never
  increases, so \<open>k\<close> is the first position at which a merge takes it to 1.

  The statement without the amendment, for every input of at least two points, fails: the
  counterexample below has two points of three integers each, so far apart that the
  distance raises OverflowError, and the driver returns no product.
\<close>
theorem part2_terminal_edge:
  assumes "parse_coordinates data = Inr coordinates"
    and "ranking pow_half coordinates = Inr edges"
    and "2 \<le> length coordinates"
  shows "\<exists>k d a b rs ds ds'. k < length edges \<and> edges ! k = (d, a, b)
      \<and> run (DisjointSet (length coordinates)) (map edge_union (take k edges))
            = Some (Inr (rs, ds))
      \<and> int (length coordinates) - int (count_list rs (Merged True)) = 2
      \<and> union_ds ds a b = Some (Inr (True, ds'))
      \<and> part2 pow_half data = Some (Inr (coordinates ! a ! 0 * coordinates ! b ! 0))"
proof -
  let ?n = "length coordinates"
  have ok: "\<forall>e\<in>set edges. op_ok ?n (edge_union e)" by (rule ranking_edges_ok[OF assms(2)])
  have ne: "\<forall>i<?n. coordinates ! i \<noteq> []"
    using ranking_tuples_nonempty[OF assms(2,3)] by fastforce
  have rts: "roots (DisjointSet ?n) = [0..<?n]"
    by (simp add: DisjointSet_def roots_def filter_id_conv)
  then have two: "2 \<le> length (roots (DisjointSet ?n))" using assms(3) by simp
  from run_all_edges_connected[OF assms(2)] obtain rsF dsF where
    rF: "run (DisjointSet ?n) (map edge_union edges) = Some (Inr (rsF, dsF))"
    and one: "length (roots dsF) \<le> 1" by blast
  from connect_all_terminal[OF invar_init two ok refl ne rF one]
  obtain k d a b rs ds ds' where
    k: "k < length edges" "edges ! k = (d, a, b)"
    and rk: "run (DisjointSet ?n) (map edge_union (take k edges)) = Some (Inr (rs, ds))"
    and ck: "count_list rs (Merged True) + 2 = length (roots (DisjointSet ?n))"
    and uk: "union_ds ds a b = Some (Inr (True, ds'))"
    and ca: "connect_all coordinates (DisjointSet ?n) (int (length (roots (DisjointSet ?n)))) edges
          = Some (Inr (coordinates ! a ! 0 * coordinates ! b ! 0))"
    by blast
  have "int ?n - int (count_list rs (Merged True)) = 2" using ck rts by simp
  moreover have "part2 pow_half data = Some (Inr (coordinates ! a ! 0 * coordinates ! b ! 0))"
    unfolding part2_def using assms(1,2) ca rts by (simp add: Let_def)
  ultimately show ?thesis using k rk uk by blast
qed

theorem part2_terminal_edge_witness:
  "parse_coordinates ''0,0,0\<newline>1,0,0\<newline>3,0,0\<newline>6,0,0'' =
     Inr [[0, 0, 0], [1, 0, 0], [3, 0, 0], [6, 0, 0]]
   \<and> ranking exact_key [[0, 0, 0], [1, 0, 0], [3, 0, 0], [6, 0, 0]] =
     Inr [(1, 0, 1), (4, 1, 2), (9, 0, 2), (9, 2, 3), (25, 1, 3), (36, 0, 3)]
   \<and> 2 \<le> length [[0, 0, 0], [1, 0, 0], [3, 0, 0], [6::int, 0, 0]]
   \<and> part2 exact_key ''0,0,0\<newline>1,0,0\<newline>3,0,0\<newline>6,0,0'' = Some (Inr 18)
   \<and> (\<exists>k d a b rs ds ds'.
         k < length [(1::int, 0::nat, 1::nat), (4, 1, 2), (9, 0, 2), (9, 2, 3), (25, 1, 3), (36, 0, 3)]
       \<and> [(1::int, 0::nat, 1::nat), (4, 1, 2), (9, 0, 2), (9, 2, 3), (25, 1, 3), (36, 0, 3)] ! k = (d, a, b)
       \<and> int (length [[0, 0, 0], [1, 0, 0], [3, 0, 0], [6::int, 0, 0]])
           - int (count_list rs (Merged True)) = 2
       \<and> union_ds ds a b = Some (Inr (True, ds'))
       \<and> [[0, 0, 0], [1, 0, 0], [3, 0, 0], [6::int, 0, 0]] ! a ! 0
           * [[0, 0, 0], [1, 0, 0], [3, 0, 0], [6::int, 0, 0]] ! b ! 0 = 18)"
proof -
  let ?D = "''0,0,0\<newline>1,0,0\<newline>3,0,0\<newline>6,0,0''"
  let ?C = "[[0, 0, 0], [1, 0, 0], [3, 0, 0], [6::int, 0, 0]]"
  let ?E = "[(1::int, 0::nat, 1::nat), (4, 1, 2), (9, 0, 2), (9, 2, 3), (25, 1, 3), (36, 0, 3)]"
  have p: "parse_coordinates ?D = Inr ?C" by code_simp
  have r: "ranking exact_key ?C = Inr ?E" by code_simp
  have n: "2 \<le> length ?C" by simp
  have v: "part2 exact_key ?D = Some (Inr 18)" by code_simp
  from part2_terminal_edge[OF p r n] obtain k d a b rs ds ds' where
    "k < length ?E" "?E ! k = (d, a, b)"
    "int (length ?C) - int (count_list rs (Merged True)) = 2"
    "union_ds ds a b = Some (Inr (True, ds'))"
    "part2 exact_key ?D = Some (Inr (?C ! a ! 0 * ?C ! b ! 0))"
    by blast
  with v have "\<exists>k d a b rs ds ds'. k < length ?E \<and> ?E ! k = (d, a, b)
       \<and> int (length ?C) - int (count_list rs (Merged True)) = 2
       \<and> union_ds ds a b = Some (Inr (True, ds'))
       \<and> ?C ! a ! 0 * ?C ! b ! 0 = 18"
    by (intro exI[of _ k] exI[of _ d] exI[of _ a] exI[of _ b] exI[of _ rs] exI[of _ ds] exI[of _ ds']) simp
  with p r n v show ?thesis by blast
qed

theorem part2_overflow_counterexample:
  "parse_coordinates
     ''0,0,0\<newline>100000000000000000000000000000000000000000000000000000000000000000000000000000000000000000000000000000000000000000000000000000000000000000000000000000000000,0,0'' =
     Inr [[0, 0, 0], [10 ^ 155, 0, 0]]
   \<and> length [[0, 0, 0], [10 ^ 155, 0, 0::int]] = 2
   \<and> part2 bounded_key
     ''0,0,0\<newline>100000000000000000000000000000000000000000000000000000000000000000000000000000000000000000000000000000000000000000000000000000000000000000000000000000000000,0,0'' =
     Some (Inl OverflowError)"
  by code_simp

lemma part2_no_pairs:
  assumes "parse_coordinates data = Inr coordinates" and "length coordinates \<le> 1"
  shows "part2 pow_half data = Some (Inr (- 1))"
proof -
  have "index_pairs (length coordinates) = []"
    using assms(2) by (cases "length coordinates") (auto simp: index_pairs_def)
  then have "ranking pow_half coordinates = Inr []"
    by (simp add: ranking_def pairwise_distances_def)
  with assms(1) show ?thesis by (simp add: part2_def)
qed

text \<open>
  Property C9 (Mode B, one point or no edges left). Evaluation of \<^verbatim>\<open>part2\<close>: for a
  single point, and for the empty input, the loop body never runs and the function returns
  the integer -1 of line 186; the two points \<open>(1, 0, 0)\<close> and \<open>(-1, 0, 0)\<close> give the same
  integer as the product of their x-coordinates.
\<close>
theorem part2_single_point_returns_minus_one:
  "part2 exact_key ''5,5,5'' = Some (Inr (- 1))
   \<and> part2 exact_key '''' = Some (Inr (- 1))
   \<and> part2 exact_key ''1,0,0\<newline>-1,0,0'' = Some (Inr (- 1))"
  by code_simp


end
